theory Spec2Isabelle
  imports Main "HOL-Library.AList" "HOL-Library.Sublist"
begin

section \<open>Strings and errors\<close>

text \<open>
  A Python \<open>str\<close> is modelled as a \<open>string\<close>; a \<open>char\<close> stands for the code point
  of the same number, so the model covers text whose code points are below 256. Two
  of them, U+00B5 and U+00FF, have an upper-case form above that range (U+039C and
  U+0178) and are left out of the model.
  Exceptions are values: a function that can raise returns \<open>error + 'a\<close>, with
  \<open>Inl\<close> carrying the exception and its message.
\<close>

datatype error =
    ValueError string
  | RuntimeError string
  | OSError string

text \<open>
  \<open>str.isspace\<close> for one character, which is also what \<open>str.strip()\<close> removes and what
  \<open>\s\<close> matches in a \<open>str\<close> pattern: TAB, LF, VT, FF, CR, the separators
  \<open>0x1c..0x1f\<close>, SPACE, NEL \<open>0x85\<close> and NBSP \<open>0xa0\<close>.
\<close>

definition is_space :: "char \<Rightarrow> bool" where
  "is_space c =
     (let n = (of_char c :: nat)
      in (9 \<le> n \<and> n \<le> 13) \<or> (28 \<le> n \<and> n \<le> 32) \<or> n = 133 \<or> n = 160)"

definition lstrip :: "string \<Rightarrow> string" where
  "lstrip s = dropWhile is_space s"

definition rstrip :: "string \<Rightarrow> string" where
  "rstrip s = rev (dropWhile is_space (rev s))"

definition strip :: "string \<Rightarrow> string" where
  "strip s = rstrip (lstrip s)"

fun startswith :: "string \<Rightarrow> string \<Rightarrow> bool" where
  "startswith s [] = True"
| "startswith [] (p # ps) = False"
| "startswith (c # cs) (p # ps) = (c = p \<and> startswith cs ps)"

text \<open>
  \<open>str.upper\<close>, character by character: the letters \<open>a\<close> to \<open>z\<close> and the Latin-1
  letters U+00E0 to U+00FE (but not the division sign U+00F7) move down by 32,
  the sharp s U+00DF becomes \<open>SS\<close>, and every other character is kept.
\<close>

definition upper_chars :: "char \<Rightarrow> string" where
  "upper_chars c =
     (let n = (of_char c :: nat)
      in if (97 \<le> n \<and> n \<le> 122) \<or> (224 \<le> n \<and> n \<le> 254 \<and> n \<noteq> 247)
         then [char_of (n - 32)]
         else if n = 223 then ''SS''
         else [c])"

definition upper :: "string \<Rightarrow> string" where
  "upper s = concat (map upper_chars s)"

section \<open>Inputs and version tags\<close>

text \<open>
  The process environment \<open>os.environ\<close> is a map from names to values.
  \<^verbatim>\<open>
  def get_input(name, default=None, *, required=False):
      key = f"INPUT_{name.upper()}"
      val = os.environ.get(key)
      if val is None or val == "":
          if required and default is None:
              raise ValueError(f"Missing required input: {name} (env {key})")
          return default or ""
      return val
  \<close>
\<close>

definition input_key :: "string \<Rightarrow> string" where
  "input_key name = ''INPUT_'' @ upper name"

definition get_input ::
  "(string \<rightharpoonup> string) \<Rightarrow> string \<Rightarrow> string option \<Rightarrow> bool \<Rightarrow> error + string" where
  "get_input environ name dflt required =
     (let key = input_key name;
          val = environ key;
          missing =
            (if required \<and> dflt = None
             then Inl (ValueError (''Missing required input: '' @ name @ '' (env '' @ key @ '')''))
             else Inr (case dflt of None \<Rightarrow> [] | Some d \<Rightarrow> d))
      in case val of
           None \<Rightarrow> missing
         | Some v \<Rightarrow> if v = [] then missing else Inr v)"

text \<open>
  \<^verbatim>\<open>
  def ensure_v_prefix(version: str) -> str:
      v = version.strip()
      if not v:
          raise ValueError("helm_version is empty")
      return v if v.startswith("v") else f"v{v}"
  \<close>
\<close>

definition ensure_v_prefix :: "string \<Rightarrow> error + string" where
  "ensure_v_prefix version =
     (let v = strip version
      in if v = [] then Inl (ValueError ''helm_version is empty'')
         else Inr (if startswith v ''v'' then v else ''v'' @ v))"

section \<open>The package command\<close>

text \<open>
  \<open>shlex.split(s)\<close> of the standard library: the POSIX-mode lexer with
  \<open>whitespace_split\<close> set and no comment characters. Its reader is a state machine
  over the input: between tokens, inside a word, inside a quotation, or right after
  a backslash (remembering whether the backslash stood inside double quotes). The
  flag \<open>quoted\<close> records that the current token had a quotation, so that \<open>''\<close> yields
  an empty token. An input that ends inside a quotation or after a backslash raises
  \<open>ValueError\<close>.
\<close>

datatype lex_state = Blank | Word | InQuote char | InEscape "char option"

definition shlex_whitespace :: "char \<Rightarrow> bool" where
  "shlex_whitespace c = (c = CHR '' '' \<or> c = CHR 0x09 \<or> c = CHR 0x0D \<or> c = CHR 0x0A)"

definition shlex_quote :: "char \<Rightarrow> bool" where
  "shlex_quote c = (c = CHR 0x27 \<or> c = CHR 0x22)"

definition shlex_escape :: "char \<Rightarrow> bool" where
  "shlex_escape c = (c = CHR 0x5C)"

definition emit :: "string \<Rightarrow> error + string list \<Rightarrow> error + string list" where
  "emit tok rest = (case rest of Inl e \<Rightarrow> Inl e | Inr toks \<Rightarrow> Inr (tok # toks))"

fun shlex_read :: "lex_state \<Rightarrow> string \<Rightarrow> bool \<Rightarrow> string \<Rightarrow> error + string list" where
  "shlex_read Blank tok quoted [] = Inr []"
| "shlex_read Word tok quoted [] = Inr (if \<not> quoted \<and> tok = [] then [] else [tok])"
| "shlex_read (InQuote q) tok quoted [] = Inl (ValueError ''No closing quotation'')"
| "shlex_read (InEscape es) tok quoted [] = Inl (ValueError ''No escaped character'')"
| "shlex_read Blank tok quoted (c # cs) =
     (if shlex_whitespace c then
        (if tok \<noteq> [] \<or> quoted then emit tok (shlex_read Blank [] False cs)
         else shlex_read Blank tok quoted cs)
      else if shlex_escape c then shlex_read (InEscape None) tok quoted cs
      else if shlex_quote c then shlex_read (InQuote c) tok quoted cs
      else shlex_read Word [c] quoted cs)"
| "shlex_read Word tok quoted (c # cs) =
     (if shlex_whitespace c then
        (if tok \<noteq> [] \<or> quoted then emit tok (shlex_read Blank [] False cs)
         else shlex_read Blank tok quoted cs)
      else if shlex_quote c then shlex_read (InQuote c) tok quoted cs
      else if shlex_escape c then shlex_read (InEscape None) tok quoted cs
      else shlex_read Word (tok @ [c]) quoted cs)"
| "shlex_read (InQuote q) tok quoted (c # cs) =
     (if c = q then shlex_read Word tok True cs
      else if shlex_escape c \<and> q = CHR 0x22 then shlex_read (InEscape (Some q)) tok True cs
      else shlex_read (InQuote q) (tok @ [c]) True cs)"
| "shlex_read (InEscape es) tok quoted (c # cs) =
     (case es of
        None \<Rightarrow> shlex_read Word (tok @ [c]) quoted cs
      | Some q \<Rightarrow>
          shlex_read (InQuote q)
            (if \<not> shlex_escape c \<and> c \<noteq> q then tok @ [CHR 0x5C, c] else tok @ [c]) quoted cs)"

definition shlex_split :: "string \<Rightarrow> error + string list" where
  "shlex_split s = shlex_read Blank [] False s"

text \<open>
  \<^verbatim>\<open>
  def build_helm_package_cmd(*, chart_path, destination, helm_chart_version,
                             helm_chart_app_version, package_args) -> list[str]:
      cmd = ["helm", "package", chart_path, "--destination", destination,
             "--version", helm_chart_version, "--app-version", helm_chart_app_version]
      extra = shlex.split(package_args) if package_args.strip() else []
      cmd.extend(extra)
      return cmd
  \<close>
\<close>

definition build_helm_package_cmd ::
  "string \<Rightarrow> string \<Rightarrow> string \<Rightarrow> string \<Rightarrow> string \<Rightarrow> error + string list" where
  "build_helm_package_cmd chart_path destination helm_chart_version
       helm_chart_app_version package_args =
     (let cmd = [''helm'', ''package'', chart_path, ''--destination'', destination,
                 ''--version'', helm_chart_version,
                 ''--app-version'', helm_chart_app_version]
      in case (if strip package_args \<noteq> [] then shlex_split package_args else Inr []) of
           Inl e \<Rightarrow> Inl e
         | Inr extra \<Rightarrow> Inr (cmd @ extra))"

section \<open>Values documents and their merge\<close>

text \<open>
  What \<open>yaml.safe_load\<close> returns: null, a scalar, a sequence or a mapping. A Python
  \<open>dict\<close> keeps its keys in insertion order and has each key once; it is an
  association list whose keys are distinct (\<open>wf_doc\<close>). \<open>k in d\<close> and \<open>d[k]\<close> are
  \<open>map_of d k\<close>; \<open>d[k] = v\<close> is \<open>AList.update k v d\<close>, which replaces the value in
  place when the key is there and appends the entry otherwise.
  \<^verbatim>\<open>
  def deep_merge_values(base: object, override: object) -> object:
      if isinstance(base, dict) and isinstance(override, dict):
          merged: dict[object, object] = dict(base)
          for k, v in override.items():
              if k in merged:
                  merged[k] = deep_merge_values(merged[k], v)
              else:
                  merged[k] = v
          return merged
      return override
  \<close>
  \<open>merge_items merged items\<close> is the \<open>for\<close> loop over the remaining \<open>items\<close> of
  \<open>override\<close>.
\<close>

datatype ('k, 's) yval =
    YNull
  | YScalar 's
  | YSeq "('k, 's) yval list"
  | YMap "('k \<times> ('k, 's) yval) list"


fun deep_merge_values :: "('k, 's) yval \<Rightarrow> ('k, 's) yval \<Rightarrow> ('k, 's) yval"
  and merge_items ::
    "('k \<times> ('k, 's) yval) list \<Rightarrow> ('k \<times> ('k, 's) yval) list \<Rightarrow> ('k \<times> ('k, 's) yval) list"
where
  "deep_merge_values (YMap base) (YMap override) = YMap (merge_items base override)"
| "deep_merge_values base override = override"
| "merge_items merged [] = merged"
| "merge_items merged ((k, v) # rest) =
     merge_items
       (case map_of merged k of
          Some mv \<Rightarrow> AList.update k (deep_merge_values mv v) merged
        | None \<Rightarrow> AList.update k v merged)
       rest"


fun wf_doc :: "('k, 's) yval \<Rightarrow> bool" where
  "wf_doc (YMap items) = (distinct (map fst items) \<and> (\<forall>(k, v) \<in> set items. wf_doc v))"
| "wf_doc (YSeq xs) = (\<forall>x \<in> set xs. wf_doc x)"
| "wf_doc _ = True"

fun doc_eq :: "('k, 's) yval \<Rightarrow> ('k, 's) yval \<Rightarrow> bool" where
  "doc_eq (YMap xs) (YMap ys) =
     (length xs = length ys \<and>
      (\<forall>(k, v) \<in> set xs. case map_of ys k of None \<Rightarrow> False | Some w \<Rightarrow> doc_eq v w))"
| "doc_eq (YSeq xs) (YSeq ys) = list_all2 doc_eq xs ys"
| "doc_eq a b = (a = b)"

text \<open>
  \<open>doc_eq\<close> is Python's \<open>==\<close> on documents: two mappings are equal when they have
  the same number of keys and every key of the first has an equal value in the
  second, whatever the order of the keys; sequences are equal element by element.
\<close>

text \<open>The documents of the merge example, with string keys.\<close>

datatype scalar = SBool bool | SInt int | SStr string

definition example_base :: "(string, scalar) yval" where
  "example_base =
     YMap [(''a'', YScalar (SInt 1)),
           (''nested'', YMap [(''x'', YScalar (SInt 1)), (''keep'', YScalar (SStr ''k''))]),
           (''lst'', YSeq [YScalar (SInt 1), YScalar (SInt 2)])]"

definition example_override :: "(string, scalar) yval" where
  "example_override =
     YMap [(''nested'', YMap [(''x'', YScalar (SInt 9)), (''y'', YScalar (SInt 2))]),
           (''lst'', YSeq [YScalar (SInt 3)]),
           (''b'', YScalar (SInt 2))]"

definition example_merged :: "(string, scalar) yval" where
  "example_merged =
     YMap [(''a'', YScalar (SInt 1)),
           (''b'', YScalar (SInt 2)),
           (''nested'', YMap [(''x'', YScalar (SInt 9)), (''y'', YScalar (SInt 2)),
                              (''keep'', YScalar (SStr ''k''))]),
           (''lst'', YSeq [YScalar (SInt 3)])]"


section \<open>Finding the created package\<close>

text \<open>
  Lines 315 to 331 of \<open>main\<close>:
  \<^verbatim>\<open>
  out = res.stdout
  m = re.search(r"saved it to:\s*(.+)\s*$", out, flags=re.IGNORECASE | re.MULTILINE)
  package_path = None
  if m:
      package_path = m.group(1).strip()
  else:
      # Fallback: pick the newest tgz in destination.
      tgzs = glob.glob(os.path.join(destination, "*.tgz"))
      if tgzs:
          tgzs.sort(key=lambda p: os.path.getmtime(p), reverse=True)
          package_path = tgzs[0]
  if not package_path:
      raise RuntimeError(
          "Could not determine created package path from Helm output.\n"
          f"Output:\n{out}")
  \<close>
  \<open>saved_group s\<close> is the match of the pattern at the very start of \<open>s\<close>, giving group
  1. The literal is compared without regard to case. The first \<open>\s*\<close> is greedy and
  also runs over line ends; the group \<open>(.+)\<close> then takes the rest of that line (\<open>.\<close>
  does not match a line feed), and \<open>\s*$\<close> succeeds there. When only whitespace
  follows the literal, the matcher backtracks: the group is the last whitespace
  character that is not a line feed, and there is no match when there is none.
  \<open>re.search\<close> tries the start positions from left to right and returns the first
  match (\<open>re_search_saved\<close>).
\<close>

definition lower_char :: "char \<Rightarrow> char" where
  "lower_char c =
     (let n = (of_char c :: nat)
      in if 65 \<le> n \<and> n \<le> 90 then char_of (n + 32) else c)"

fun startswith_ci :: "string \<Rightarrow> string \<Rightarrow> bool" where
  "startswith_ci s [] = True"
| "startswith_ci [] (p # ps) = False"
| "startswith_ci (c # cs) (p # ps) = (lower_char c = lower_char p \<and> startswith_ci cs ps)"

definition newline :: char where
  "newline = CHR 0x0A"

definition saved_group :: "string \<Rightarrow> string option" where
  "saved_group s =
     (if \<not> startswith_ci s ''saved it to:'' then None
      else
        let r = drop 12 s;
            rest = dropWhile is_space r
        in if rest \<noteq> [] then Some (takeWhile (\<lambda>c. c \<noteq> newline) rest)
           else (case dropWhile (\<lambda>c. c = newline) (rev r) of
                   [] \<Rightarrow> None
                 | c # _ \<Rightarrow> Some [c]))"

fun re_search_saved :: "string \<Rightarrow> string option" where
  "re_search_saved [] = None"
| "re_search_saved (c # cs) =
     (case saved_group (c # cs) of
        Some g \<Rightarrow> Some g
      | None \<Rightarrow> re_search_saved cs)"

text \<open>
  \<open>tgzs\<close> is the result of \<open>glob.glob\<close> in the destination, each path with its
  modification time (\<open>os.path.getmtime\<close>, as a number). \<open>list.sort(key, reverse=True)\<close>
  is stable and descending, which is \<open>sort_key\<close> on the negated time.
\<close>

definition not_found_message :: "string \<Rightarrow> string" where
  "not_found_message out =
     ''Could not determine created package path from Helm output.'' @ [newline]
       @ ''Output:'' @ [newline] @ out"

definition extract_package_path :: "string \<Rightarrow> (string \<times> int) list \<Rightarrow> error + string" where
  "extract_package_path out tgzs =
     (let package_path =
            (case re_search_saved out of
               Some g \<Rightarrow> Some (strip g)
             | None \<Rightarrow>
                 (case sort_key (\<lambda>e. - snd e) tgzs of
                    [] \<Rightarrow> None
                  | e # _ \<Rightarrow> Some (fst e)))
      in case package_path of
           None \<Rightarrow> Inl (RuntimeError (not_found_message out))
         | Some p \<Rightarrow>
             if p = [] then Inl (RuntimeError (not_found_message out)) else Inr p)"

definition two_saved_lines :: string where
  "two_saved_lines = ''saved it to: a.tgz'' @ [newline] @ ''saved it to: b.tgz''"

section \<open>Path resolution\<close>

text \<open>
  The paths are POSIX paths (the action runs in a Linux container), so \<open>os.path\<close> is
  \<open>posixpath\<close>. Its functions are modelled on strings as the library computes them:
  \<open>split_sep\<close> is \<open>str.split("/")\<close>, \<open>join_sep\<close> is \<open>"/".join\<close>, \<open>isabs\<close> tests for a
  leading slash, \<open>path_join\<close> is \<open>os.path.join\<close> with two arguments.
\<close>

fun split_sep :: "string \<Rightarrow> string list" where
  "split_sep [] = [[]]"
| "split_sep (c # cs) =
     (if c = CHR ''/'' then [] # split_sep cs
      else (case split_sep cs of
              [] \<Rightarrow> [[c]]
            | x # xs \<Rightarrow> (c # x) # xs))"

fun join_sep :: "string list \<Rightarrow> string" where
  "join_sep [] = []"
| "join_sep [x] = x"
| "join_sep (x # y # ys) = x @ CHR ''/'' # join_sep (y # ys)"

definition isabs :: "string \<Rightarrow> bool" where
  "isabs s = startswith s ''/''"

definition path_join :: "string \<Rightarrow> string \<Rightarrow> string" where
  "path_join a b =
     (if startswith b ''/'' then b
      else if a = [] \<or> last a = CHR ''/'' then a @ b
      else a @ CHR ''/'' # b)"

text \<open>
  \<open>os.path.normpath\<close>: the empty path becomes \<open>.\<close>; one leading slash is kept, exactly
  two are kept, three or more become one; the components are folded with
  \<open>norm_step\<close>, which drops empty and \<open>.\<close> components, appends a name, appends \<open>..\<close>
  when nothing can be popped (a relative path at its start or after another \<open>..\<close>),
  pops the last name for any other \<open>..\<close>, and drops \<open>..\<close> at the root.
\<close>

definition norm_step :: "bool \<Rightarrow> string list \<Rightarrow> string \<Rightarrow> string list" where
  "norm_step initial_slashes new_comps part =
     (if part = [] \<or> part = ''.'' then new_comps
      else if part \<noteq> ''..'' \<or> (\<not> initial_slashes \<and> new_comps = [])
              \<or> (new_comps \<noteq> [] \<and> last new_comps = ''..'')
      then new_comps @ [part]
      else if new_comps \<noteq> [] then butlast new_comps
      else new_comps)"

definition normpath :: "string \<Rightarrow> string" where
  "normpath path =
     (if path = [] then ''.''
      else
        let initial_slashes =
              (if startswith path ''/''
               then (if startswith path ''//'' \<and> \<not> startswith path ''///'' then 2 else 1)
               else (0 :: nat));
            comps = split_sep path;
            new_comps = foldl (norm_step (initial_slashes \<noteq> 0)) [] comps;
            p = replicate initial_slashes (CHR ''/'') @ join_sep new_comps
        in if p = [] then ''.'' else p)"

text \<open>
  \<open>os.path.abspath\<close> joins a relative path to the working directory \<open>os.getcwd()\<close>,
  which is the parameter \<open>cwd\<close>. \<open>os.path.relpath(path, start)\<close> raises \<open>ValueError\<close> on
  the empty path; otherwise it splits both absolute paths into their non-empty
  components, drops the longest common prefix (\<open>commonprefix\<close> of two lists), climbs
  with one \<open>..\<close> for each remaining component of \<open>start\<close> and joins the result.
\<close>

definition abspath :: "string \<Rightarrow> string \<Rightarrow> string" where
  "abspath cwd path = normpath (if isabs path then path else path_join cwd path)"

fun common_prefix :: "'a list \<Rightarrow> 'a list \<Rightarrow> 'a list" where
  "common_prefix (x # xs) (y # ys) = (if x = y then x # common_prefix xs ys else [])"
| "common_prefix xs ys = []"

definition join_all :: "string list \<Rightarrow> string" where
  "join_all comps = (case comps of [] \<Rightarrow> [] | x # xs \<Rightarrow> foldl path_join x xs)"

definition relpath :: "string \<Rightarrow> string \<Rightarrow> string \<Rightarrow> error + string" where
  "relpath cwd path start =
     (if path = [] then Inl (ValueError ''no path specified'')
      else
        let start_list = filter (\<lambda>x. x \<noteq> []) (split_sep (abspath cwd start));
            path_list = filter (\<lambda>x. x \<noteq> []) (split_sep (abspath cwd path));
            i = length (common_prefix start_list path_list);
            rel_list = replicate (length start_list - i) ''..'' @ drop i path_list
        in Inr (if rel_list = [] then ''.'' else join_all rel_list))"

text \<open>
  \<^verbatim>\<open>
  def resolve_path(workspace: str, p: str) -> str:
      if os.path.isabs(p):
          return os.path.normpath(p)
      return os.path.normpath(os.path.join(workspace, p))

  def workspace_relpath(workspace: str, p: str) -> str:
      ws = os.path.normpath(workspace)
      pp = os.path.normpath(p)
      try:
          return os.path.relpath(pp, ws)
      except ValueError:
          return pp
  \<close>
\<close>

definition resolve_path :: "string \<Rightarrow> string \<Rightarrow> string" where
  "resolve_path workspace p =
     (if isabs p then normpath p else normpath (path_join workspace p))"

definition workspace_relpath :: "string \<Rightarrow> string \<Rightarrow> string \<Rightarrow> string" where
  "workspace_relpath cwd workspace p =
     (let ws = normpath workspace;
          pp = normpath p
      in case relpath cwd pp ws of
           Inr r \<Rightarrow> r
         | Inl e \<Rightarrow> pp)"

text \<open>
  Notions for stating properties of paths: a component list is \<open>clean\<close> when it has
  no empty and no \<open>.\<close> component, and consists of \<open>names\<close> when it has no \<open>..\<close> either;
  \<open>ncomps\<close> is the component list \<open>normpath\<close> computes; \<open>anchor cwd x\<close> is the component
  list of the absolute form of \<open>x\<close>.
\<close>

definition clean :: "string list \<Rightarrow> bool" where
  "clean xs = (\<forall>x \<in> set xs. x \<noteq> [] \<and> x \<noteq> ''.'')"

definition names :: "string list \<Rightarrow> bool" where
  "names xs = (\<forall>x \<in> set xs. x \<noteq> [] \<and> x \<noteq> ''.'' \<and> x \<noteq> ''..'')"

definition ncomps :: "bool \<Rightarrow> string \<Rightarrow> string list" where
  "ncomps a path = foldl (norm_step a) [] (split_sep path)"

definition anchor :: "string \<Rightarrow> string \<Rightarrow> string list" where
  "anchor cwd x =
     (if isabs x then ncomps True x
      else foldl (norm_step True) (ncomps True cwd) (split_sep x))"

section \<open>The filesystem and the effects of a run\<close>

text \<open>
  The filesystem is a map from locations to nodes. A location is the list of
  components of an absolute normalized path, the root being \<open>[]\<close>; a path string
  names the location of its absolute form (\<open>locate\<close>). Symbolic links, permissions
  and modification times are not part of a node. Every operation of the run that
  changes something appends an event to the trace of the world when it has
  succeeded. The code has no operation that removes an entry, so there is none
  here.
\<close>

type_synonym fpath = "string list"

datatype node = File string | Dir

type_synonym filesystem = "fpath \<Rightarrow> node option"

datatype event =
    EvMakedirs fpath
  | EvInstall string
  | EvRun "string list"
  | EvMkdtemp fpath
  | EvCopytree fpath fpath
  | EvWrite fpath
  | EvAppend fpath
  | EvPrint string

record world =
  files :: filesystem
  trace :: "event list"

definition locate :: "string \<Rightarrow> string \<Rightarrow> fpath" where
  "locate cwd p = filter (\<lambda>x. x \<noteq> []) (split_sep (abspath cwd p))"

text \<open>An action runs in a world and ends with a value or an exception.\<close>

type_synonym 'a action = "world \<Rightarrow> (error + 'a) \<times> world"

definition ret :: "'a \<Rightarrow> 'a action" where
  "ret x = (\<lambda>w. (Inr x, w))"

definition raise :: "error \<Rightarrow> 'a action" where
  "raise e = (\<lambda>w. (Inl e, w))"

definition and_then :: "'a action \<Rightarrow> ('a \<Rightarrow> 'b action) \<Rightarrow> 'b action" where
  "and_then m f = (\<lambda>w. case m w of (Inl e, w') \<Rightarrow> (Inl e, w') | (Inr x, w') \<Rightarrow> f x w')"

definition of_result :: "error + 'a \<Rightarrow> 'a action" where
  "of_result r = (case r of Inl e \<Rightarrow> raise e | Inr x \<Rightarrow> ret x)"

definition log :: "event \<Rightarrow> world \<Rightarrow> world" where
  "log e w = w\<lparr>trace := trace w @ [e]\<rparr>"

text \<open>
  \<open>os.path.isfile\<close>, and reading a file with \<open>open(path, "r")\<close>.
\<close>

definition isfile :: "string \<Rightarrow> filesystem \<Rightarrow> string \<Rightarrow> bool" where
  "isfile cwd fs p = (case fs (locate cwd p) of Some (File c) \<Rightarrow> True | _ \<Rightarrow> False)"

definition read_file :: "string \<Rightarrow> string \<Rightarrow> string action" where
  "read_file cwd p =
     (\<lambda>w. case files w (locate cwd p) of
             Some (File c) \<Rightarrow> (Inr c, w)
           | _ \<Rightarrow> (Inl (OSError (''cannot read: '' @ p)), w))"

text \<open>
  \<open>os.makedirs(name, exist_ok=True)\<close>: when the parent does not exist it is made
  first, in the same way; then \<open>mkdir\<close> creates the directory, which needs a
  parent that is a directory and a free name; when \<open>mkdir\<close> fails the call still
  succeeds if the directory is there, and raises otherwise. \<open>mkdirs\<close> takes the
  location in reverse, the last component first.
\<close>

fun mkdirs :: "filesystem \<Rightarrow> string list \<Rightarrow> error + filesystem" where
  "mkdirs fs [] =
     (if fs [] = Some Dir then Inr fs else Inl (OSError ''cannot create the root''))"
| "mkdirs fs (c # up) =
     (case (if fs (rev up) = None then mkdirs fs up else Inr fs) of
        Inl e \<Rightarrow> Inl e
      | Inr fs1 \<Rightarrow>
          if fs1 (rev up) = Some Dir \<and> fs1 (rev up @ [c]) = None
          then Inr (fs1(rev up @ [c] \<mapsto> Dir))
          else if fs1 (rev up @ [c]) = Some Dir then Inr fs1
          else Inl (OSError (''cannot create directory: '' @ join_sep (rev up @ [c]))))"

definition makedirs :: "string \<Rightarrow> string \<Rightarrow> unit action" where
  "makedirs cwd name =
     (\<lambda>w. case mkdirs (files w) (rev (locate cwd name)) of
             Inl e \<Rightarrow> (Inl e, w)
           | Inr fs \<Rightarrow> (Inr (), log (EvMakedirs (locate cwd name)) (w\<lparr>files := fs\<rparr>)))"

text \<open>
  Writing with \<open>open(path, "w")\<close> needs the parent directory, refuses a directory
  and replaces the content of the file; \<open>open(path, "a")\<close> appends to it.
\<close>

definition write_file :: "string \<Rightarrow> string \<Rightarrow> string \<Rightarrow> unit action" where
  "write_file cwd p content =
     (\<lambda>w. let k = locate cwd p
          in if k = [] \<or> files w (butlast k) \<noteq> Some Dir \<or> files w k = Some Dir
             then (Inl (OSError (''cannot write: '' @ p)), w)
             else (Inr (), log (EvWrite k) (w\<lparr>files := (files w)(k \<mapsto> File content)\<rparr>)))"

definition append_file :: "string \<Rightarrow> string \<Rightarrow> string \<Rightarrow> unit action" where
  "append_file cwd p content =
     (\<lambda>w. let k = locate cwd p
          in if k = [] \<or> files w (butlast k) \<noteq> Some Dir \<or> files w k = Some Dir
             then (Inl (OSError (''cannot write: '' @ p)), w)
             else (Inr (),
                   log (EvAppend k)
                     (w\<lparr>files := (files w)(k \<mapsto>
                          File ((case files w k of Some (File old) \<Rightarrow> old | _ \<Rightarrow> []) @ content))\<rparr>)))"

text \<open>
  \<open>tempfile.mkdtemp(prefix=pre, dir=dir)\<close> draws random names (eight characters
  out of letters, digits and underscore; \<open>candidates\<close> are the names drawn), creates
  the first directory \<open>dir/pre+name\<close> that does not exist yet and returns its
  absolute path (as Python 3.12 does; before, the joined path was returned as it
  is, which names the same location). It raises when \<open>dir\<close> is not a directory or when it runs out of
  attempts.
\<close>

fun mkdtemp_pick :: "filesystem \<Rightarrow> fpath \<Rightarrow> string \<Rightarrow> string list \<Rightarrow> string option" where
  "mkdtemp_pick fs parent pre [] = None"
| "mkdtemp_pick fs parent pre (n # ns) =
     (case fs (parent @ [pre @ n]) of
        None \<Rightarrow> Some n
      | Some x \<Rightarrow> mkdtemp_pick fs parent pre ns)"

definition mkdtemp :: "string \<Rightarrow> string list \<Rightarrow> string \<Rightarrow> string \<Rightarrow> string action" where
  "mkdtemp cwd candidates pre dir =
     (\<lambda>w. let parent = locate cwd dir
          in if files w parent \<noteq> Some Dir
             then (Inl (OSError (''no such directory: '' @ dir)), w)
             else (case mkdtemp_pick (files w) parent pre candidates of
                     None \<Rightarrow> (Inl (OSError ''No usable temporary directory name found''), w)
                   | Some n \<Rightarrow>
                       (Inr (abspath cwd (path_join dir (pre @ n))),
                        log (EvMkdtemp (parent @ [pre @ n]))
                          (w\<lparr>files := (files w)(parent @ [pre @ n] \<mapsto> Dir)\<rparr>))))"

text \<open>
  \<open>shutil.copytree(src, dst)\<close>: \<open>src\<close> must be a directory and \<open>dst\<close> must not exist;
  the missing parents of \<open>dst\<close> are created, then every entry below \<open>src\<close> gets a
  copy at the same place below \<open>dst\<close>. When \<open>dst\<close> lies inside \<open>src\<close> the library
  descends into its own output until the system refuses the path and raises; the
  model then records the failure and the creation of \<open>dst\<close>, not what was copied
  below \<open>dst\<close> before the failure.
\<close>

definition copytree :: "string \<Rightarrow> string \<Rightarrow> string \<Rightarrow> unit action" where
  "copytree cwd src dst =
     (\<lambda>w. let s = locate cwd src;
              d = locate cwd dst
          in if files w s \<noteq> Some Dir then (Inl (OSError (''not a directory: '' @ src)), w)
             else if files w d \<noteq> None then (Inl (OSError (''file exists: '' @ dst)), w)
             else (case mkdirs (files w) (rev (butlast d)) of
                     Inl e \<Rightarrow> (Inl e, w)
                   | Inr fs \<Rightarrow>
                       if prefix s d
                       then (Inl (OSError (''cannot copy a directory into itself: '' @ dst)),
                             log (EvCopytree s d) (w\<lparr>files := fs(d \<mapsto> Dir)\<rparr>))
                       else (Inr (),
                             log (EvCopytree s d)
                               (w\<lparr>files := (\<lambda>k. if prefix d k
                                                 then files w (s @ drop (length d) k)
                                                 else fs k)\<rparr>))))"

text \<open>
  What the run uses and this repository does not define: the working directory,
  the semantic-version parser, the download and installation of the tool (lines
  206 to 247 of \<open>install_helm\<close>), the subprocess (\<open>subprocess.run\<close>, with its exit
  status and output), the YAML parser and printer, the random names of
  \<open>tempfile\<close>, and the listing of the archives of a directory with their
  modification times. An external tool may change the filesystem in any way.
\<close>

record ('k, 's) externals =
  getcwd :: string
  semver_parses :: "string \<Rightarrow> bool"
  helm_setup :: "string \<Rightarrow> filesystem \<Rightarrow> error option \<times> filesystem"
  subprocess_run :: "string list \<Rightarrow> filesystem \<Rightarrow> (error + int \<times> string) \<times> filesystem"
  yaml_safe_load :: "string \<Rightarrow> error + ('k, 's) yval"
  yaml_safe_dump :: "('k, 's) yval \<Rightarrow> string"
  random_names :: "string list"
  glob_tgz :: "filesystem \<Rightarrow> string \<Rightarrow> (string \<times> int) list"

text \<open>
  \<^verbatim>\<open>
  def run(cmd, *, cwd=None):
      return subprocess.run(cmd, cwd=cwd, text=True, stdout=subprocess.PIPE,
                            stderr=subprocess.STDOUT, check=False)
  \<close>
\<close>

definition run :: "('k, 's) externals \<Rightarrow> string list \<Rightarrow> (int \<times> string) action" where
  "run ext cmd =
     (\<lambda>w. case subprocess_run ext cmd (files w) of
             (r, fs) \<Rightarrow> (r, log (EvRun cmd) (w\<lparr>files := fs\<rparr>)))"

text \<open>
  \<open>install_helm\<close>: the tag is normalized first; everything after that is the
  external installation.
\<close>

definition install_helm :: "('k, 's) externals \<Rightarrow> string \<Rightarrow> unit action" where
  "install_helm ext helm_version =
     and_then (of_result (ensure_v_prefix helm_version))
       (\<lambda>version w.
          case helm_setup ext version (files w) of
            (r, fs) \<Rightarrow>
              ((case r of Some e \<Rightarrow> Inl e | None \<Rightarrow> Inr ()),
               log (EvInstall version) (w\<lparr>files := fs\<rparr>)))"

text \<open>
  \<^verbatim>\<open>
  def truthy(s: str) -> bool:
      return s.strip().lower() in {"1", "true", "yes", "y", "on"}

  def parse_values_files(values_files_raw: str) -> list[str]:
      items = []
      for part in re.split(r"[,\n\r]+", values_files_raw or ""):
          p = part.strip()
          if p:
              items.append(p)
      return items
  \<close>
  \<open>lower\<close> is \<open>str.lower\<close>: the letters \<open>A\<close> to \<open>Z\<close> and the Latin-1 letters U+00C0 to
  U+00DE (but not the multiplication sign U+00D7) move up by 32. \<open>split_on\<close> cuts at
  every delimiter; \<open>re.split\<close> with \<open>+\<close> cuts at every run of
  delimiters, which differs only by empty parts, and those are dropped.
\<close>

definition lower :: "string \<Rightarrow> string" where
  "lower s =
     map (\<lambda>c. let n = (of_char c :: nat)
               in if (65 \<le> n \<and> n \<le> 90) \<or> (192 \<le> n \<and> n \<le> 222 \<and> n \<noteq> 215)
                  then char_of (n + 32) else c) s"

definition truthy :: "string \<Rightarrow> bool" where
  "truthy s = (lower (strip s) \<in> set [''1'', ''true'', ''yes'', ''y'', ''on''])"

fun split_on :: "(char \<Rightarrow> bool) \<Rightarrow> string \<Rightarrow> string list" where
  "split_on P [] = [[]]"
| "split_on P (c # cs) =
     (if P c then [] # split_on P cs
      else (case split_on P cs of
              [] \<Rightarrow> [[c]]
            | x # xs \<Rightarrow> (c # x) # xs))"

definition parse_values_files :: "string \<Rightarrow> string list" where
  "parse_values_files values_files_raw =
     filter (\<lambda>p. p \<noteq> [])
       (map strip
          (split_on (\<lambda>c. c = CHR '','' \<or> c = CHR 0x0A \<or> c = CHR 0x0D) values_files_raw))"

text \<open>
  \<^verbatim>\<open>
  def load_yaml_file(path: str) -> object:
      with open(path, "r", encoding="utf-8") as f:
          data = yaml.safe_load(f)
      return {} if data is None else data

  def dump_yaml_file(path: str, data: object) -> None:
      with open(path, "w", encoding="utf-8") as f:
          yaml.safe_dump(data, f, default_flow_style=False, sort_keys=False)
  \<close>
\<close>

definition load_yaml_file :: "('k, 's) externals \<Rightarrow> string \<Rightarrow> ('k, 's) yval action" where
  "load_yaml_file ext path =
     and_then (read_file (getcwd ext) path)
       (\<lambda>text. and_then (of_result (yaml_safe_load ext text))
          (\<lambda>data. ret (if data = YNull then YMap [] else data)))"

definition dump_yaml_file :: "('k, 's) externals \<Rightarrow> string \<Rightarrow> ('k, 's) yval \<Rightarrow> unit action" where
  "dump_yaml_file ext path data = write_file (getcwd ext) path (yaml_safe_dump ext data)"

definition basename :: "string \<Rightarrow> string" where
  "basename p = rev (takeWhile (\<lambda>c. c \<noteq> CHR ''/'') (rev p))"

text \<open>
  Lines 277 to 294 of \<open>main\<close>, the merge of the values files and the workspace
  copy. The result is \<open>chart_path_for_packaging\<close>.
  \<^verbatim>\<open>
  values_files = parse_values_files(values_files_raw)
  chart_path_for_packaging = chart_path
  if values_files:
      merged_values: object = {}
      for rel in values_files:
          src_path = os.path.normpath(os.path.join(chart_path, rel))
          if not os.path.isfile(src_path):
              raise RuntimeError(f"Values file not found: {src_path}")
          merged_values = deep_merge_values(merged_values, load_yaml_file(src_path))
      tmp_root = tempfile.mkdtemp(prefix=".dist-temporary-", dir=workspace)
      chart_name = os.path.basename(os.path.normpath(chart_path))
      tmp_chart = os.path.join(tmp_root, chart_name)
      shutil.copytree(chart_path, tmp_chart)
      dump_yaml_file(os.path.join(tmp_chart, "values.yaml"), merged_values)
      chart_path_for_packaging = tmp_chart
  \<close>
\<close>

fun merge_values_files ::
  "('k, 's) externals \<Rightarrow> string \<Rightarrow> ('k, 's) yval \<Rightarrow> string list \<Rightarrow> ('k, 's) yval action" where
  "merge_values_files ext chart_path merged_values [] = ret merged_values"
| "merge_values_files ext chart_path merged_values (rel # rest) =
     (let src_path = normpath (path_join chart_path rel)
      in (\<lambda>w. if \<not> isfile (getcwd ext) (files w) src_path
               then (Inl (RuntimeError (''Values file not found: '' @ src_path)), w)
               else and_then (load_yaml_file ext src_path)
                      (\<lambda>doc. merge_values_files ext chart_path
                                (deep_merge_values merged_values doc) rest) w))"

definition build_workspace ::
  "('k, 's) externals \<Rightarrow> string \<Rightarrow> string \<Rightarrow> string list \<Rightarrow> string action" where
  "build_workspace ext workspace chart_path values_files =
     (if values_files = [] then ret chart_path
      else
        and_then (merge_values_files ext chart_path (YMap []) values_files)
          (\<lambda>merged_values.
        and_then (mkdtemp (getcwd ext) (random_names ext) ''.dist-temporary-'' workspace)
          (\<lambda>tmp_root.
             let chart_name = basename (normpath chart_path);
                 tmp_chart = path_join tmp_root chart_name
             in and_then (copytree (getcwd ext) chart_path tmp_chart)
                  (\<lambda>_. and_then
                          (dump_yaml_file ext (path_join tmp_chart ''values.yaml'') merged_values)
                          (\<lambda>_. ret tmp_chart)))))"

text \<open>
  \<^verbatim>\<open>
  def write_output(name: str, value: str) -> None:
      path = os.environ.get("GITHUB_OUTPUT")
      if not path:
          print(f"{name}={value}")
          return
      with open(path, "a", encoding="utf-8") as f:
          f.write(f"{name}={value}\n")
  \<close>
\<close>

definition write_output ::
  "string \<Rightarrow> (string \<rightharpoonup> string) \<Rightarrow> string \<Rightarrow> string \<Rightarrow> unit action" where
  "write_output cwd environ name val =
     (case environ ''GITHUB_OUTPUT'' of
        None \<Rightarrow> (\<lambda>w. (Inr (), log (EvPrint (name @ ''='' @ val)) w))
      | Some path \<Rightarrow>
          if path = [] then (\<lambda>w. (Inr (), log (EvPrint (name @ ''='' @ val)) w))
          else append_file cwd path (name @ ''='' @ val @ [newline]))"

text \<open>The inputs of a run, lines 252 to 261 of \<open>main\<close>.\<close>

record inputs =
  workspace :: string
  chart_path_in :: string
  destination_in :: string
  helm_version :: string
  dependency_update :: bool
  package_args_in :: string
  helm_chart_version :: string
  helm_chart_app_version :: string
  values_files_raw :: string

definition sum_bind :: "error + 'a \<Rightarrow> ('a \<Rightarrow> error + 'b) \<Rightarrow> error + 'b" where
  "sum_bind r f = (case r of Inl e \<Rightarrow> Inl e | Inr x \<Rightarrow> f x)"

definition read_inputs :: "(string \<rightharpoonup> string) \<Rightarrow> error + inputs" where
  "read_inputs environ =
     (let ws = (case environ ''GITHUB_WORKSPACE'' of
                  None \<Rightarrow> ''/github/workspace''
                | Some v \<Rightarrow> v)
      in sum_bind (get_input environ ''chart_path'' None True) (\<lambda>cp.
         sum_bind (get_input environ ''destination'' (Some ''.'') False) (\<lambda>dst.
         sum_bind (get_input environ ''helm_version'' (Some ''v3.14.4'') False) (\<lambda>hv.
         sum_bind (get_input environ ''dependency_update'' (Some ''false'') False) (\<lambda>du.
         sum_bind (get_input environ ''package_args'' (Some []) False) (\<lambda>pa.
         sum_bind (get_input environ ''helm_chart_version'' None True) (\<lambda>cv.
         sum_bind (get_input environ ''helm_chart_app_version'' None True) (\<lambda>av.
         sum_bind (get_input environ ''values_files'' (Some []) False) (\<lambda>vf.
         Inr \<lparr>workspace = ws, chart_path_in = cp, destination_in = dst,
              helm_version = hv, dependency_update = truthy du, package_args_in = pa,
              helm_chart_version = cv, helm_chart_app_version = av,
              values_files_raw = vf\<rparr>)))))))))"

text \<open>
  Lines 263 to 273: the checks, the resolution of the two paths and the creation
  of the destination. The result is the pair of resolved paths.
  \<^verbatim>\<open>
  if not validate_version(helm_chart_version):
      raise RuntimeError(f"Invalid helm chart version (SemVer required): ...")
  chart_path = resolve_path(workspace, chart_path_in)
  destination = resolve_path(workspace, destination_in)
  chart_yaml = os.path.join(chart_path, "Chart.yaml")
  if not os.path.isfile(chart_yaml):
      raise RuntimeError(f"`Chart.yaml` not found at: {chart_yaml}")
  os.makedirs(destination, exist_ok=True)
  \<close>
\<close>

definition validate_version :: "('k, 's) externals \<Rightarrow> string \<Rightarrow> bool" where
  "validate_version ext version = semver_parses ext (strip version)"

definition prepare :: "('k, 's) externals \<Rightarrow> inputs \<Rightarrow> (string \<times> string) action" where
  "prepare ext i =
     (if \<not> validate_version ext (helm_chart_version i)
      then raise (RuntimeError (''Invalid helm chart version (SemVer required): ''
                                 @ helm_chart_version i))
      else
        let chart_path = resolve_path (workspace i) (chart_path_in i);
            destination = resolve_path (workspace i) (destination_in i);
            chart_yaml = path_join chart_path ''Chart.yaml''
        in (\<lambda>w. if \<not> isfile (getcwd ext) (files w) chart_yaml
                 then (Inl (RuntimeError (''`Chart.yaml` not found at: '' @ chart_yaml)), w)
                 else and_then (makedirs (getcwd ext) destination)
                        (\<lambda>_. ret (chart_path, destination)) w))"

text \<open>
  Lines 296 to 339: the optional dependency update, the package command, the
  search for the created package and the output.
\<close>

definition package ::
  "('k, 's) externals \<Rightarrow> (string \<rightharpoonup> string) \<Rightarrow> inputs \<Rightarrow> string \<Rightarrow> string \<Rightarrow> unit action" where
  "package ext environ i chart_path_for_packaging destination =
     and_then
       (if dependency_update i
        then and_then (run ext [''helm'', ''dependency'', ''update'', chart_path_for_packaging])
               (\<lambda>dep. if fst dep \<noteq> 0
                       then raise (RuntimeError (''`helm dependency update` failed:''
                                                  @ [newline] @ snd dep))
                       else ret ())
        else ret ())
       (\<lambda>_. and_then
          (of_result (build_helm_package_cmd chart_path_for_packaging destination
                        (helm_chart_version i) (helm_chart_app_version i) (package_args_in i)))
       (\<lambda>cmd. and_then (run ext cmd)
       (\<lambda>res. if fst res \<noteq> 0
               then raise (RuntimeError (''`helm package` failed:'' @ [newline] @ snd res))
               else (\<lambda>w. and_then
                      (of_result (extract_package_path (snd res)
                                    (glob_tgz ext (files w) destination)))
       (\<lambda>package_path.
          let package_path_abs =
                (if \<not> isabs package_path then resolve_path (workspace i) package_path
                 else normpath package_path);
              package_path_out = workspace_relpath (getcwd ext) (workspace i) package_path_abs
          in write_output (getcwd ext) environ ''package_path'' package_path_out) w))))"

text \<open>
  \<open>main\<close>: any exception ends the run with status 1, otherwise the status is 0.
\<close>

definition main_body :: "('k, 's) externals \<Rightarrow> (string \<rightharpoonup> string) \<Rightarrow> unit action" where
  "main_body ext environ =
     and_then (of_result (read_inputs environ))
       (\<lambda>i. and_then (prepare ext i)
       (\<lambda>(chart_path, destination). and_then (install_helm ext (helm_version i))
       (\<lambda>_. and_then (build_workspace ext (workspace i) chart_path
                         (parse_values_files (values_files_raw i)))
       (\<lambda>chart_path_for_packaging.
          package ext environ i chart_path_for_packaging destination))))"

definition main :: "('k, 's) externals \<Rightarrow> (string \<rightharpoonup> string) \<Rightarrow> world \<Rightarrow> int \<times> world" where
  "main ext environ w =
     (case main_body ext environ w of
        (Inl ex, w') \<Rightarrow> (1, w')
      | (Inr u, w') \<Rightarrow> (0, w'))"

text \<open>
  A concrete run for the examples: a workspace \<open>/ws\<close> with a chart and two values
  files, a tool that packages (or fails, when the flag is off), and a parser that
  knows the two documents of the merge example.
\<close>

definition example_environ :: "string \<rightharpoonup> string" where
  "example_environ =
     map_of [(''GITHUB_WORKSPACE'', ''/ws''),
             (''INPUT_CHART_PATH'', ''chart''),
             (''INPUT_DESTINATION'', ''dist''),
             (''INPUT_HELM_CHART_VERSION'', ''1.2.3''),
             (''INPUT_HELM_CHART_APP_VERSION'', ''4.5.6''),
             (''INPUT_VALUES_FILES'', ''values.yaml,values.dev.yaml'')]"

definition example_files :: filesystem where
  "example_files =
     map_of [([], Dir),
             ([''ws''], Dir),
             ([''ws'', ''chart''], Dir),
             ([''ws'', ''chart'', ''Chart.yaml''], File ''name: x''),
             ([''ws'', ''chart'', ''values.yaml''], File ''base''),
             ([''ws'', ''chart'', ''values.dev.yaml''], File ''override'')]"

definition example_world :: world where
  "example_world = \<lparr>files = example_files, trace = []\<rparr>"

definition example_tools :: "bool \<Rightarrow> (string, scalar) externals" where
  "example_tools ok =
     \<lparr>getcwd = ''/'',
      semver_parses = (\<lambda>v. True),
      helm_setup = (\<lambda>v fs. (None, fs)),
      subprocess_run =
        (\<lambda>cmd fs.
           if ok
           then (Inr (0, ''Successfully packaged chart and saved it to: /ws/dist/x-1.2.3.tgz''),
                 (if fs [''ws'', ''dist'', ''x-1.2.3.tgz''] = Some Dir then fs
                  else fs([''ws'', ''dist'', ''x-1.2.3.tgz''] \<mapsto> File ''archive'')))
           else (Inr (1, ''Error: chart is broken''), fs)),
      yaml_safe_load =
        (\<lambda>text. if text = ''base'' then Inr example_base
                else if text = ''override'' then Inr example_override
                else Inl (ValueError ''not a document'')),
      yaml_safe_dump = (\<lambda>doc. if doc = example_base then ''base''
                             else if doc = example_override then ''override''
                             else ''merged''),
      random_names = [''abcd1234''],
      glob_tgz = (\<lambda>fs d. [])\<rparr>"


definition extends :: "'a action \<Rightarrow> bool" where
  "extends m = (\<forall>w r w'. m w = (r, w') \<longrightarrow> (\<exists>evs. trace w' = trace w @ evs))"

text \<open>
  Notions for the life of the temporary workspace: the external tools
  \<open>keep directories\<close> when they remove or replace none; an action is \<open>quiet\<close> when it
  only appends events that create no temporary directory, \<open>stable\<close> when it is
  quiet and every directory is still a directory afterwards, and \<open>settled\<close> when
  every temporary directory it has created is a directory afterwards.
\<close>

definition keeps_directories :: "('k, 's) externals \<Rightarrow> bool" where
  "keeps_directories ext =
     ((\<forall>v fs k. fs k = Some Dir \<longrightarrow> snd (helm_setup ext v fs) k = Some Dir)
      \<and> (\<forall>cmd fs k. fs k = Some Dir \<longrightarrow> snd (subprocess_run ext cmd fs) k = Some Dir))"

definition quiet :: "'a action \<Rightarrow> bool" where
  "quiet m = (\<forall>w r w'. m w = (r, w') \<longrightarrow>
       (\<exists>evs. trace w' = trace w @ evs \<and> (\<forall>t. EvMkdtemp t \<notin> set evs)))"

definition stable :: "'a action \<Rightarrow> bool" where
  "stable m = (quiet m \<and> (\<forall>w r w' k. m w = (r, w') \<longrightarrow> files w k = Some Dir \<longrightarrow>
                 files w' k = Some Dir))"

definition settled :: "'a action \<Rightarrow> bool" where
  "settled m = (\<forall>w r w'. m w = (r, w') \<longrightarrow>
       (\<exists>evs. trace w' = trace w @ evs
          \<and> (\<forall>t. EvMkdtemp t \<in> set evs \<longrightarrow> files w' t = Some Dir)))"

section \<open>Properties of the inputs and version tags\<close>

text \<open>
  C9. An input whose environment variable is set to the empty string is treated
  exactly like one whose variable is absent: the two calls of \<open>get_input\<close> return
  the same thing. In both situations \<open>get_input\<close> returns the default when one is
  given, raises \<open>ValueError\<close> for a required input with no default, and returns the
  empty string for an optional input with no default.
\<close>

theorem get_input_empty_is_absent:
  "get_input (environ(input_key name \<mapsto> [])) name dflt required
     = get_input (environ(input_key name := None)) name dflt required
   \<and> (environ (input_key name) = None \<or> environ (input_key name) = Some [] \<longrightarrow>
        (\<forall>d. dflt = Some d \<longrightarrow> get_input environ name dflt required = Inr d)
      \<and> (required \<and> dflt = None \<longrightarrow>
           (\<exists>msg. get_input environ name dflt required = Inl (ValueError msg)))
      \<and> (\<not> required \<and> dflt = None \<longrightarrow>
           get_input environ name dflt required = Inr []))"
  by (auto simp: get_input_def Let_def)

theorem get_input_empty_is_absent_witness:
  "[''INPUT_CHART_PATH'' \<mapsto> []] (input_key ''chart_path'') = Some ([] :: string)
   \<and> (\<exists>msg. get_input [''INPUT_CHART_PATH'' \<mapsto> []] ''chart_path'' None True
          = Inl (ValueError msg))
   \<and> get_input [''INPUT_CHART_PATH'' \<mapsto> []] ''chart_path'' (Some ''.'') True = Inr ''.''
   \<and> get_input [''INPUT_CHART_PATH'' \<mapsto> []] ''chart_path'' None False = Inr []
   \<and> get_input (Map.empty(input_key ''chart_path'' \<mapsto> [])) ''chart_path'' None True
       = get_input (Map.empty(input_key ''chart_path'' := None)) ''chart_path'' None True"
proof -
  let ?env = "[''INPUT_CHART_PATH'' \<mapsto> []] :: string \<rightharpoonup> string"
  have k: "input_key ''chart_path'' = ''INPUT_CHART_PATH''"
    by code_simp
  have e: "?env (input_key ''chart_path'') = Some []"
    by (simp add: k)
  have a: "\<exists>msg. get_input ?env ''chart_path'' None True = Inl (ValueError msg)"
    using e get_input_empty_is_absent [of ?env "''chart_path''" None True] by blast
  have b: "get_input ?env ''chart_path'' (Some ''.'') True = Inr ''.''"
    using e get_input_empty_is_absent [of ?env "''chart_path''" "Some ''.''" True] by blast
  have c: "get_input ?env ''chart_path'' None False = Inr []"
    using e get_input_empty_is_absent [of ?env "''chart_path''" None False] by blast
  have d: "get_input (Map.empty(input_key ''chart_path'' \<mapsto> [])) ''chart_path'' None True
       = get_input (Map.empty(input_key ''chart_path'' := None)) ''chart_path'' None True"
    using get_input_empty_is_absent [of Map.empty "''chart_path''" None True] by blast
  show ?thesis by (intro conjI e a b c d)
qed

lemma startswith_v: "startswith s ''v'' \<longleftrightarrow> (\<exists>t. s = CHR ''v'' # t)"
  by (cases s) auto

text \<open>
  C5 (as the code has it). \<open>ensure_v_prefix\<close> raises for every input that is empty
  after trimming whitespace. For every other input it works on the trimmed text
  \<open>t = strip s\<close>, not on \<open>s\<close>: it returns \<open>t\<close> unchanged when \<open>t\<close> starts with \<open>v\<close>, and
  \<open>t\<close> with \<open>v\<close> prepended otherwise.
\<close>

theorem ensure_v_prefix_trimmed:
  "(strip s = [] \<longrightarrow> ensure_v_prefix s = Inl (ValueError ''helm_version is empty''))
   \<and> (strip s \<noteq> [] \<and> startswith (strip s) ''v'' \<longrightarrow> ensure_v_prefix s = Inr (strip s))
   \<and> (strip s \<noteq> [] \<and> \<not> startswith (strip s) ''v'' \<longrightarrow>
        ensure_v_prefix s = Inr (CHR ''v'' # strip s))"
  by (simp add: ensure_v_prefix_def Let_def)

theorem ensure_v_prefix_trimmed_witness:
  "strip ''   '' = []
   \<and> ensure_v_prefix ''   '' = Inl (ValueError ''helm_version is empty'')
   \<and> strip '' v3.14.4 '' \<noteq> [] \<and> startswith (strip '' v3.14.4 '') ''v''
   \<and> ensure_v_prefix '' v3.14.4 '' = Inr ''v3.14.4''
   \<and> strip ''3.14.4'' \<noteq> [] \<and> \<not> startswith (strip ''3.14.4'') ''v''
   \<and> ensure_v_prefix ''3.14.4'' = Inr ''v3.14.4''"
proof -
  have a: "strip ''   '' = []"
    by (simp add: strip_def lstrip_def rstrip_def is_space_def)
  have b: "strip '' v3.14.4 '' = ''v3.14.4''"
    by (simp add: strip_def lstrip_def rstrip_def is_space_def)
  have c: "strip ''3.14.4'' = ''3.14.4''"
    by (simp add: strip_def lstrip_def rstrip_def is_space_def)
  show ?thesis
    using ensure_v_prefix_trimmed [of "''   ''"]
      ensure_v_prefix_trimmed [of "'' v3.14.4 ''"]
      ensure_v_prefix_trimmed [of "''3.14.4''"]
    by (simp add: a b c)
qed

text \<open>
  C5 (as the claim words it) fails on an input with surrounding whitespace: \<open>''v1 ''\<close>
  is not empty after trimming and starts with \<open>v\<close>, yet the result is the trimmed
  \<open>''v1''\<close>, not the input unchanged.
\<close>

theorem ensure_v_prefix_untrimmed_counterexample:
  "strip ''v1 '' \<noteq> [] \<and> startswith ''v1 '' ''v''
   \<and> ensure_v_prefix ''v1 '' = Inr ''v1'' \<and> ensure_v_prefix ''v1 '' \<noteq> Inr ''v1 ''"
  by (simp add: ensure_v_prefix_def strip_def lstrip_def rstrip_def is_space_def)

section \<open>Properties of the package command\<close>

text \<open>
  C7. For every chart path, destination, chart version, app version and raw
  extra-argument string: a command is built unless the extra arguments are not
  blank and their tokenization raises (the exception then leaves the builder).
  Every built command starts with the nine fixed tokens \<open>helm\<close>, \<open>package\<close>, the
  chart path, \<open>--destination\<close>, the destination, \<open>--version\<close>, the chart version,
  \<open>--app-version\<close>, the app version, in this order; what follows them is exactly the
  token list of \<open>shlex_split\<close> on the raw string, in its order, and nothing at all
  when the raw string is empty or only whitespace.
\<close>

theorem build_helm_package_cmd_layout:
  "((\<exists>cmd. build_helm_package_cmd cp d v av args = Inr cmd)
      \<longleftrightarrow> (strip args = [] \<or> (\<exists>toks. shlex_split args = Inr toks)))
   \<and> (\<forall>cmd. build_helm_package_cmd cp d v av args = Inr cmd \<longrightarrow>
         take 4 cmd = [''helm'', ''package'', cp, ''--destination'']
       \<and> take 9 cmd = [''helm'', ''package'', cp, ''--destination'', d,
                        ''--version'', v, ''--app-version'', av]
       \<and> (strip args = [] \<longrightarrow> drop 9 cmd = [])
       \<and> (strip args \<noteq> [] \<longrightarrow> shlex_split args = Inr (drop 9 cmd)))"
  by (auto simp: build_helm_package_cmd_def split: sum.splits if_splits)

lemma shlex_example:
  "shlex_split ''--dependency-update --debug'' = Inr [''--dependency-update'', ''--debug'']"
  by (simp add: shlex_split_def shlex_whitespace_def shlex_quote_def shlex_escape_def emit_def)

theorem build_helm_package_cmd_layout_witness:
  "build_helm_package_cmd ''/ws/chart'' ''/ws/dist'' ''1.2.3'' ''4.5.6''
       ''--dependency-update --debug''
     = Inr [''helm'', ''package'', ''/ws/chart'', ''--destination'', ''/ws/dist'',
            ''--version'', ''1.2.3'', ''--app-version'', ''4.5.6'',
            ''--dependency-update'', ''--debug'']
   \<and> strip ''--dependency-update --debug'' \<noteq> []
   \<and> build_helm_package_cmd ''/ws/chart'' ''/ws/dist'' ''1.2.3'' ''4.5.6'' ''  ''
     = Inr [''helm'', ''package'', ''/ws/chart'', ''--destination'', ''/ws/dist'',
            ''--version'', ''1.2.3'', ''--app-version'', ''4.5.6'']
   \<and> strip ''  '' = []"
proof -
  have s1: "strip ''--dependency-update --debug'' \<noteq> []"
    by (simp add: strip_def lstrip_def rstrip_def is_space_def)
  have s2: "strip ''  '' = []"
    by (simp add: strip_def lstrip_def rstrip_def is_space_def)
  let ?c1 = "build_helm_package_cmd ''/ws/chart'' ''/ws/dist'' ''1.2.3'' ''4.5.6''
       ''--dependency-update --debug''"
  let ?c2 = "build_helm_package_cmd ''/ws/chart'' ''/ws/dist'' ''1.2.3'' ''4.5.6'' ''  ''"
  note t1 = build_helm_package_cmd_layout [of "''/ws/chart''" "''/ws/dist''" "''1.2.3''"
      "''4.5.6''" "''--dependency-update --debug''"]
  note t2 = build_helm_package_cmd_layout [of "''/ws/chart''" "''/ws/dist''" "''1.2.3''"
      "''4.5.6''" "''  ''"]
  from t1 shlex_example obtain cmd1 where c1: "?c1 = Inr cmd1" by blast
  with t1 s1 shlex_example have "take 9 cmd1 = [''helm'', ''package'', ''/ws/chart'',
      ''--destination'', ''/ws/dist'', ''--version'', ''1.2.3'', ''--app-version'', ''4.5.6'']"
    and "drop 9 cmd1 = [''--dependency-update'', ''--debug'']"
    by auto
  then have r1: "cmd1 = [''helm'', ''package'', ''/ws/chart'',
      ''--destination'', ''/ws/dist'', ''--version'', ''1.2.3'', ''--app-version'', ''4.5.6'',
      ''--dependency-update'', ''--debug'']"
    using append_take_drop_id [of 9 cmd1] by simp
  from t2 s2 obtain cmd2 where c2: "?c2 = Inr cmd2" by blast
  with t2 s2 have "take 9 cmd2 = [''helm'', ''package'', ''/ws/chart'',
      ''--destination'', ''/ws/dist'', ''--version'', ''1.2.3'', ''--app-version'', ''4.5.6'']"
    and "drop 9 cmd2 = []"
    by auto
  then have r2: "cmd2 = [''helm'', ''package'', ''/ws/chart'',
      ''--destination'', ''/ws/dist'', ''--version'', ''1.2.3'', ''--app-version'', ''4.5.6'']"
    using append_take_drop_id [of 9 cmd2] by simp
  show ?thesis using c1 r1 c2 r2 s1 s2 by simp
qed

section \<open>Properties of the merge\<close>

lemma merge_step_keys:
  "set (map fst (case map_of m k of
          Some mv \<Rightarrow> AList.update k (f mv) m
        | None \<Rightarrow> AList.update k v m)) = insert k (set (map fst m))"
  by (simp add: AList.dom_update split: option.splits)

lemma merge_step_distinct:
  "distinct (map fst m) \<Longrightarrow>
   distinct (map fst (case map_of m k of
          Some mv \<Rightarrow> AList.update k (f mv) m
        | None \<Rightarrow> AList.update k v m))"
  by (auto simp: AList.distinct_update split: option.splits)

lemma merge_items_keys:
  "set (map fst (merge_items m xs)) = set (map fst m) \<union> set (map fst xs)"
proof (induction xs arbitrary: m)
  case Nil
  show ?case by simp
next
  case (Cons p xs)
  obtain k v where p: "p = (k, v)" by (cases p)
  show ?case
    unfolding p merge_items.simps Cons.IH merge_step_keys by auto
qed

lemma merge_items_distinct:
  "distinct (map fst m) \<Longrightarrow> distinct (map fst (merge_items m xs))"
proof (induction xs arbitrary: m)
  case Nil
  then show ?case by simp
next
  case (Cons p xs)
  obtain k v where p: "p = (k, v)" by (cases p)
  show ?case
    unfolding p merge_items.simps
    by (rule Cons.IH) (rule merge_step_distinct [OF Cons.prems])
qed

lemma merge_items_base_order:
  "\<exists>new. map fst (merge_items m xs) = map fst m @ new"
proof (induction xs arbitrary: m)
  case Nil
  show ?case by simp
next
  case (Cons p xs)
  obtain k v where p: "p = (k, v)" by (cases p)
  let ?m' = "case map_of m k of
          Some mv \<Rightarrow> AList.update k (deep_merge_values mv v) m
        | None \<Rightarrow> AList.update k v m"
  have "\<exists>a. map fst ?m' = map fst m @ a"
    by (auto simp: AList.update_keys split: option.splits)
  then obtain a where a: "map fst ?m' = map fst m @ a" ..
  from Cons.IH [of ?m'] obtain b where "map fst (merge_items ?m' xs) = map fst ?m' @ b" ..
  then show ?case unfolding p merge_items.simps a by simp
qed

lemma merge_items_lookup:
  "distinct (map fst xs) \<Longrightarrow>
   map_of (merge_items m xs) k =
     (case map_of xs k of
        None \<Rightarrow> map_of m k
      | Some v \<Rightarrow> (case map_of m k of
                    None \<Rightarrow> Some v
                  | Some mv \<Rightarrow> Some (deep_merge_values mv v)))"
proof (induction xs arbitrary: m)
  case Nil
  show ?case by simp
next
  case (Cons p xs)
  obtain k0 v0 where p: "p = (k0, v0)" by (cases p)
  let ?m' = "case map_of m k0 of
          Some mv \<Rightarrow> AList.update k0 (deep_merge_values mv v0) m
        | None \<Rightarrow> AList.update k0 v0 m"
  from Cons.prems have d: "distinct (map fst xs)" and n: "k0 \<notin> fst ` set xs"
    by (auto simp: p)
  have step: "map_of (merge_items m (p # xs)) k =
     (case map_of xs k of
        None \<Rightarrow> map_of ?m' k
      | Some v \<Rightarrow> (case map_of ?m' k of
                    None \<Rightarrow> Some v
                  | Some mv \<Rightarrow> Some (deep_merge_values mv v)))"
    unfolding p merge_items.simps by (rule Cons.IH [OF d])
  show ?case
  proof (cases "k = k0")
    case True
    have "map_of xs k0 = None" using n by (simp add: map_of_eq_None_iff)
    then show ?thesis
      unfolding step using True
      by (auto simp: p AList.update_conv' split: option.splits)
  next
    case False
    have "map_of ?m' k = map_of m k"
      using False by (auto simp: AList.update_conv' split: option.splits)
    then show ?thesis
      unfolding step using False by (simp add: p split: option.splits)
  qed
qed

lemma merge_items_fixed:
  "distinct (map fst xs) \<Longrightarrow>
   (\<And>k v. (k, v) \<in> set xs \<Longrightarrow> \<exists>w. map_of m k = Some w \<and> deep_merge_values w v = w) \<Longrightarrow>
   merge_items m xs = m"
proof (induction xs arbitrary: m)
  case Nil
  show ?case by simp
next
  case (Cons p xs)
  obtain k v where p: "p = (k, v)" by (cases p)
  from Cons.prems(2) [of k v] obtain w where w: "map_of m k = Some w" "deep_merge_values w v = w"
    by (auto simp: p)
  have m': "(case map_of m k of
          Some mv \<Rightarrow> AList.update k (deep_merge_values mv v) m
        | None \<Rightarrow> AList.update k v m) = m"
    using w by (simp add: AList.update_triv)
  have "merge_items m xs = m"
  proof (rule Cons.IH)
    show "distinct (map fst xs)" using Cons.prems(1) by simp
    show "\<exists>w. map_of m k' = Some w \<and> deep_merge_values w v' = w" if "(k', v') \<in> set xs" for k' v'
      using Cons.prems(2) [of k' v'] that by simp
  qed
  then show ?case unfolding p merge_items.simps m' .
qed

lemma deep_merge_values_self: "wf_doc x \<Longrightarrow> deep_merge_values x x = x"
proof (induction x)
  case (YMap items)
  have "merge_items items items = items"
  proof (rule merge_items_fixed)
    show "distinct (map fst items)" using YMap.prems by simp
    fix k v assume kv: "(k, v) \<in> set items"
    with YMap.prems have "map_of items k = Some v" "wf_doc v" by auto
    moreover have "deep_merge_values v v = v"
      using YMap.IH [of "(k, v)" v] kv \<open>wf_doc v\<close> by simp
    ultimately show "\<exists>w. map_of items k = Some w \<and> deep_merge_values w v = w" by simp
  qed
  then show ?case by simp
qed simp_all

lemma deep_merge_values_again:
  "wf_doc override \<Longrightarrow>
   deep_merge_values (deep_merge_values base override) override = deep_merge_values base override"
proof (induction override arbitrary: base)
  case (YMap items)
  show ?case
  proof (cases "\<exists>bs. base = YMap bs")
    case False
    then have "deep_merge_values base (YMap items) = YMap items"
      by (cases base) simp_all
    then show ?thesis using deep_merge_values_self [OF YMap.prems] by simp
  next
    case True
    then obtain bs where base: "base = YMap bs" ..
    from YMap.prems have d: "distinct (map fst items)" by simp
    have "merge_items (merge_items bs items) items = merge_items bs items"
    proof (rule merge_items_fixed [OF d])
      fix k v assume kv: "(k, v) \<in> set items"
      with YMap.prems have look: "map_of items k = Some v" and wfv: "wf_doc v" by auto
      have again: "deep_merge_values (deep_merge_values b v) v = deep_merge_values b v" for b
        using YMap.IH [of "(k, v)" v b] kv wfv by simp
      show "\<exists>w. map_of (merge_items bs items) k = Some w \<and> deep_merge_values w v = w"
        using again deep_merge_values_self [OF wfv]
        by (simp add: merge_items_lookup [OF d] look split: option.splits)
    qed
    then show ?thesis by (simp add: base)
  qed
qed simp_all

lemma deep_merge_values_example:
  "deep_merge_values example_base example_override =
     YMap [(''a'', YScalar (SInt 1)),
           (''nested'', YMap [(''x'', YScalar (SInt 9)), (''keep'', YScalar (SStr ''k'')),
                              (''y'', YScalar (SInt 2))]),
           (''lst'', YSeq [YScalar (SInt 3)]),
           (''b'', YScalar (SInt 2))]"
  by (simp add: example_base_def example_override_def)

text \<open>
  C1. When both documents are mappings (the keys of the override being distinct,
  as those of a \<open>dict\<close> are), the merge is a mapping that starts with the keys of
  the base in their order, has exactly the keys of either side, and holds at each
  key: the recursive merge of the two values when both sides have the key, the
  base value when only the base has it, the override value when only the override
  has it. In every other case (one side is null, a scalar or a sequence) the
  result is the override as it is, so a sequence is never merged element by
  element. The merge of the example documents is equal, as Python compares
  documents, to the document the specification gives.
\<close>

theorem deep_merge_values_rules:
  "(distinct (map fst os) \<longrightarrow>
      (\<exists>ms new. deep_merge_values (YMap bs) (YMap os) = YMap ms
         \<and> map fst ms = map fst bs @ new
         \<and> set (map fst ms) = set (map fst bs) \<union> set (map fst os)
         \<and> (\<forall>k. map_of ms k =
               (case map_of os k of
                  None \<Rightarrow> map_of bs k
                | Some v \<Rightarrow> (case map_of bs k of
                              None \<Rightarrow> Some v
                            | Some bv \<Rightarrow> Some (deep_merge_values bv v))))))
   \<and> ((\<forall>xs. base \<noteq> YMap xs) \<or> (\<forall>ys. override \<noteq> YMap ys) \<longrightarrow>
        deep_merge_values base override = override)
   \<and> doc_eq (deep_merge_values example_base example_override) example_merged"
proof (intro conjI impI)
  assume d: "distinct (map fst os)"
  obtain new where new: "map fst (merge_items bs os) = map fst bs @ new"
    using merge_items_base_order [of bs os] ..
  have keys: "set (map fst (merge_items bs os)) = set (map fst bs) \<union> set (map fst os)"
    by (rule merge_items_keys)
  have look: "\<forall>k. map_of (merge_items bs os) k =
               (case map_of os k of
                  None \<Rightarrow> map_of bs k
                | Some v \<Rightarrow> (case map_of bs k of
                              None \<Rightarrow> Some v
                            | Some bv \<Rightarrow> Some (deep_merge_values bv v)))"
    using merge_items_lookup [OF d, of bs] by blast
  have "deep_merge_values (YMap bs) (YMap os) = YMap (merge_items bs os)" by simp
  with new keys look show "\<exists>ms new. deep_merge_values (YMap bs) (YMap os) = YMap ms
         \<and> map fst ms = map fst bs @ new
         \<and> set (map fst ms) = set (map fst bs) \<union> set (map fst os)
         \<and> (\<forall>k. map_of ms k =
               (case map_of os k of
                  None \<Rightarrow> map_of bs k
                | Some v \<Rightarrow> (case map_of bs k of
                              None \<Rightarrow> Some v
                            | Some bv \<Rightarrow> Some (deep_merge_values bv v))))"
    by blast
next
  assume "(\<forall>xs. base \<noteq> YMap xs) \<or> (\<forall>ys. override \<noteq> YMap ys)"
  then show "deep_merge_values base override = override"
    by (cases base; cases override) simp_all
next
  show "doc_eq (deep_merge_values example_base example_override) example_merged"
    unfolding deep_merge_values_example by (simp add: example_merged_def)
qed

theorem deep_merge_values_rules_witness:
  "distinct (map fst ([(''x'', YScalar (SInt 9)), (''y'', YScalar (SInt 2))]
                        :: (string \<times> (string, scalar) yval) list))
   \<and> (\<exists>ms. deep_merge_values
              (YMap [(''x'', YScalar (SInt 1)), (''keep'', YScalar (SStr ''k''))])
              (YMap [(''x'', YScalar (SInt 9)), (''y'', YScalar (SInt 2))]) = YMap ms
         \<and> map_of ms ''x'' = Some (YScalar (SInt 9))
         \<and> map_of ms ''keep'' = Some (YScalar (SStr ''k''))
         \<and> map_of ms ''y'' = Some (YScalar (SInt 2))
         \<and> set (map fst ms) = {''x'', ''keep'', ''y''})
   \<and> deep_merge_values (YMap [(''x'', YScalar (SInt 1))]) (YSeq [YScalar (SInt 3)])
       = (YSeq [YScalar (SInt 3)] :: (string, scalar) yval)"
proof -
  let ?bs = "[(''x'', YScalar (SInt 1)), (''keep'', YScalar (SStr ''k''))]
               :: (string \<times> (string, scalar) yval) list"
  let ?os = "[(''x'', YScalar (SInt 9)), (''y'', YScalar (SInt 2))]
               :: (string \<times> (string, scalar) yval) list"
  have d: "distinct (map fst ?os)" by simp
  note t = deep_merge_values_rules [of ?os ?bs "YMap [(''x'', YScalar (SInt 1))]" "YSeq [YScalar (SInt 3)]"]
  from t have t1: "distinct (map fst ?os) \<longrightarrow>
      (\<exists>ms new. deep_merge_values (YMap ?bs) (YMap ?os) = YMap ms
         \<and> map fst ms = map fst ?bs @ new
         \<and> set (map fst ms) = set (map fst ?bs) \<union> set (map fst ?os)
         \<and> (\<forall>k. map_of ms k =
               (case map_of ?os k of
                  None \<Rightarrow> map_of ?bs k
                | Some v \<Rightarrow> (case map_of ?bs k of
                              None \<Rightarrow> Some v
                            | Some bv \<Rightarrow> Some (deep_merge_values bv v)))))"
    by (rule conjunct1)
  from t have t2: "(\<forall>xs. YMap [(''x'', YScalar (SInt 1))] \<noteq> (YMap xs :: (string, scalar) yval))
        \<or> (\<forall>ys. YSeq [YScalar (SInt 3)] \<noteq> (YMap ys :: (string, scalar) yval)) \<longrightarrow>
        deep_merge_values (YMap [(''x'', YScalar (SInt 1))]) (YSeq [YScalar (SInt 3)])
          = (YSeq [YScalar (SInt 3)] :: (string, scalar) yval)"
    by (rule conjunct1 [OF conjunct2])
  from t1 d obtain ms new where ms: "deep_merge_values (YMap ?bs) (YMap ?os) = YMap ms"
    and keys: "set (map fst ms) = set (map fst ?bs) \<union> set (map fst ?os)"
    and look: "\<forall>k. map_of ms k =
               (case map_of ?os k of
                  None \<Rightarrow> map_of ?bs k
                | Some v \<Rightarrow> (case map_of ?bs k of
                              None \<Rightarrow> Some v
                            | Some bv \<Rightarrow> Some (deep_merge_values bv v)))"
    by (elim impE exE conjE) assumption
  have x: "map_of ms ''x'' = Some (YScalar (SInt 9))"
    using spec [OF look, of "''x''"] by simp
  have kp: "map_of ms ''keep'' = Some (YScalar (SStr ''k''))"
    using spec [OF look, of "''keep''"] by simp
  have y: "map_of ms ''y'' = Some (YScalar (SInt 2))"
    using spec [OF look, of "''y''"] by simp
  have ks: "set (map fst ms) = {''x'', ''keep'', ''y''}"
    unfolding keys by auto
  have s: "deep_merge_values (YMap [(''x'', YScalar (SInt 1))]) (YSeq [YScalar (SInt 3)])
       = (YSeq [YScalar (SInt 3)] :: (string, scalar) yval)"
    using t2 by simp
  have "\<exists>ms. deep_merge_values (YMap ?bs) (YMap ?os) = YMap ms
         \<and> map_of ms ''x'' = Some (YScalar (SInt 9))
         \<and> map_of ms ''keep'' = Some (YScalar (SStr ''k''))
         \<and> map_of ms ''y'' = Some (YScalar (SInt 2))
         \<and> set (map fst ms) = {''x'', ''keep'', ''y''}"
    by (intro exI [of _ ms] conjI ms x kp y ks)
  with d s show ?thesis by (intro conjI)
qed

text \<open>
  C6. Merging an override a second time changes nothing: for documents whose
  mappings have distinct keys, \<open>deep_merge_values (deep_merge_values base override)
  override\<close> is \<open>deep_merge_values base override\<close>, and \<open>deep_merge_values x x\<close> is \<open>x\<close>.
\<close>

theorem deep_merge_values_idempotent:
  "(wf_doc override \<longrightarrow>
      deep_merge_values (deep_merge_values base override) override
        = deep_merge_values base override)
   \<and> (wf_doc x \<longrightarrow> deep_merge_values x x = x)"
  using deep_merge_values_again [of override base] deep_merge_values_self [of x] by blast

theorem deep_merge_values_idempotent_witness:
  "wf_doc example_override \<and> wf_doc example_base
   \<and> deep_merge_values (deep_merge_values example_base example_override) example_override
       = deep_merge_values example_base example_override
   \<and> deep_merge_values example_base example_base = example_base"
proof -
  have w: "wf_doc example_override" "wf_doc example_base"
    by (simp_all add: example_override_def example_base_def)
  show ?thesis
    using w deep_merge_values_idempotent [of example_override example_base example_base]
    by blast
qed

section \<open>Properties of the package search\<close>

lemma re_search_first:
  "saved_group s = Some g \<Longrightarrow>
   (\<And>i. i < length pre \<Longrightarrow> saved_group (drop i pre @ s) = None) \<Longrightarrow>
   re_search_saved (pre @ s) = Some g"
proof (induction pre)
  case Nil
  then show ?case by (cases s) (simp_all add: saved_group_def)
next
  case (Cons c pre)
  have "saved_group ((c # pre) @ s) = None"
    using Cons.prems(2) [of 0] by simp
  moreover have "re_search_saved (pre @ s) = Some g"
  proof (rule Cons.IH [OF Cons.prems(1)])
    fix i assume "i < length pre"
    then show "saved_group (drop i pre @ s) = None"
      using Cons.prems(2) [of "Suc i"] by simp
  qed
  ultimately show ?case by simp
qed

lemma re_search_None:
  "re_search_saved s = None \<longleftrightarrow> (\<forall>i \<le> length s. saved_group (drop i s) = None)"
proof (induction s)
  case Nil
  show ?case by (simp add: saved_group_def)
next
  case (Cons c s)
  have "(\<forall>i \<le> length (c # s). saved_group (drop i (c # s)) = None)
        \<longleftrightarrow> saved_group (c # s) = None \<and> (\<forall>i \<le> length s. saved_group (drop i s) = None)"
    (is "?L \<longleftrightarrow> ?R")
  proof
    assume l: ?L
    have "saved_group (c # s) = None" using l [rule_format, of 0] by simp
    moreover have "saved_group (drop i s) = None" if "i \<le> length s" for i
      using l [rule_format, of "Suc i"] that by simp
    ultimately show ?R by blast
  next
    assume r: ?R
    show ?L
    proof (intro allI impI)
      fix i assume "i \<le> length (c # s)"
      then show "saved_group (drop i (c # s)) = None"
        using r by (cases i) auto
    qed
  qed
  then show ?case using Cons.IH by (auto split: option.splits)
qed

lemma sort_key_hd_max:
  "sort_key f xs = p # ps \<Longrightarrow> p \<in> set xs \<and> (\<forall>q \<in> set xs. f p \<le> f q)"
proof -
  assume a: "sort_key f xs = p # ps"
  have s: "sorted (map f (sort_key f xs))" by simp
  have m: "set (sort_key f xs) = set xs" by simp
  from a m have "p \<in> set xs" by auto
  moreover have "\<forall>q \<in> set xs. f p \<le> f q"
    using s m unfolding a by auto
  ultimately show ?thesis by blast
qed

lemma saved_group_line:
  assumes lit: "startswith_ci s ''saved it to:''"
    and r: "drop 12 s = ws @ path @ tail"
    and ws: "\<forall>c \<in> set ws. is_space c"
    and path: "path \<noteq> []" "\<not> is_space (hd path)" "newline \<notin> set path"
    and tail: "tail = [] \<or> hd tail = newline"
  shows "saved_group s = Some path"
proof -
  obtain c cs where p: "path = c # cs" using path(1) by (cases path) auto
  have c: "\<not> is_space c" using path(2) p by simp
  have d: "dropWhile is_space (ws @ path @ tail) = path @ tail"
    using ws c by (simp add: p dropWhile_append3)
  have t: "takeWhile (\<lambda>c. c \<noteq> newline) (path @ tail) = path"
  proof (cases tail)
    case Nil
    then show ?thesis using path(3) by (auto simp: takeWhile_eq_all_conv)
  next
    case (Cons a as)
    then have "a = newline" using tail by simp
    then show ?thesis using path(3) Cons by (auto simp: takeWhile_tail)
  qed
  show ?thesis
    unfolding saved_group_def Let_def r d t using lit path(1) by simp
qed

lemma extract_on_match:
  "re_search_saved out = Some g \<Longrightarrow>
   extract_package_path out tgzs =
     (if strip g = [] then Inl (RuntimeError (not_found_message out)) else Inr (strip g))"
  by (simp add: extract_package_path_def)

lemma extract_no_match_empty:
  "re_search_saved out = None \<Longrightarrow>
   extract_package_path out [] = Inl (RuntimeError (not_found_message out))"
  by (simp add: extract_package_path_def)

lemma extract_no_match_newest:
  assumes "re_search_saved out = None" "tgzs \<noteq> []"
  shows "\<exists>e \<in> set tgzs. (\<forall>q \<in> set tgzs. snd q \<le> snd e) \<and>
           extract_package_path out tgzs =
             (if fst e = [] then Inl (RuntimeError (not_found_message out)) else Inr (fst e))"
proof -
  have "sort_key (\<lambda>e. - snd e) tgzs \<noteq> []"
    using assms(2) by (metis length_sort list.size(3) length_0_conv)
  then obtain e es where s: "sort_key (\<lambda>e. - snd e) tgzs = e # es"
    by (cases "sort_key (\<lambda>e. - snd e) tgzs") auto
  from sort_key_hd_max [OF s] have "e \<in> set tgzs" "\<forall>q \<in> set tgzs. snd q \<le> snd e"
    by auto
  moreover have "extract_package_path out tgzs =
             (if fst e = [] then Inl (RuntimeError (not_found_message out)) else Inr (fst e))"
    using assms(1) by (simp add: extract_package_path_def s)
  ultimately show ?thesis by blast
qed

text \<open>
  C3 (as the code has it). The search takes the FIRST match: when the pattern
  matches at the start of \<open>s\<close> and at no position before it, \<open>re.search\<close> on
  \<open>pre @ s\<close> returns the group of \<open>s\<close>. A line \<open>saved it to: <path>\<close> (any case of
  the literal, whitespace, then a path up to the line end) gives that path as the
  group. Whenever the output has a match, the result is the trimmed group whatever
  the destination holds, and the run fails when the trimmed group is empty. Only
  when no position matches does the destination decide: with no archive the run
  fails, otherwise an archive of greatest modification time is taken. The error
  message ends with the raw tool output.
\<close>

theorem extract_package_path_first_match:
  "(saved_group s = Some g \<and> (\<forall>i < length pre. saved_group (drop i pre @ s) = None) \<longrightarrow>
      re_search_saved (pre @ s) = Some g)
   \<and> (startswith_ci s ''saved it to:'' \<and> drop 12 s = ws @ path @ tail
        \<and> (\<forall>c \<in> set ws. is_space c) \<and> path \<noteq> [] \<and> \<not> is_space (hd path)
        \<and> newline \<notin> set path \<and> (tail = [] \<or> hd tail = newline) \<longrightarrow>
      saved_group s = Some path)
   \<and> (re_search_saved out = Some m \<longrightarrow>
      extract_package_path out tgzs =
        (if strip m = [] then Inl (RuntimeError (not_found_message out)) else Inr (strip m)))
   \<and> (re_search_saved out = None \<longleftrightarrow> (\<forall>i \<le> length out. saved_group (drop i out) = None))
   \<and> (re_search_saved out = None \<and> tgzs = [] \<longrightarrow>
      extract_package_path out tgzs = Inl (RuntimeError (not_found_message out)))
   \<and> (re_search_saved out = None \<and> tgzs \<noteq> [] \<longrightarrow>
      (\<exists>e \<in> set tgzs. (\<forall>q \<in> set tgzs. snd q \<le> snd e) \<and>
         extract_package_path out tgzs =
           (if fst e = [] then Inl (RuntimeError (not_found_message out)) else Inr (fst e))))
   \<and> (\<exists>intro. not_found_message out = intro @ out)"
proof (intro conjI impI)
  assume "saved_group s = Some g \<and> (\<forall>i < length pre. saved_group (drop i pre @ s) = None)"
  then show "re_search_saved (pre @ s) = Some g"
    using re_search_first [of s g pre] by blast
next
  assume "startswith_ci s ''saved it to:'' \<and> drop 12 s = ws @ path @ tail
        \<and> (\<forall>c \<in> set ws. is_space c) \<and> path \<noteq> [] \<and> \<not> is_space (hd path)
        \<and> newline \<notin> set path \<and> (tail = [] \<or> hd tail = newline)"
  then show "saved_group s = Some path"
    using saved_group_line [of s ws path tail] by blast
next
  assume "re_search_saved out = Some m"
  then show "extract_package_path out tgzs =
        (if strip m = [] then Inl (RuntimeError (not_found_message out)) else Inr (strip m))"
    by (rule extract_on_match)
next
  show "re_search_saved out = None \<longleftrightarrow> (\<forall>i \<le> length out. saved_group (drop i out) = None)"
    by (rule re_search_None)
next
  assume "re_search_saved out = None \<and> tgzs = []"
  then show "extract_package_path out tgzs = Inl (RuntimeError (not_found_message out))"
    using extract_no_match_empty [of out] by blast
next
  assume "re_search_saved out = None \<and> tgzs \<noteq> []"
  then show "\<exists>e \<in> set tgzs. (\<forall>q \<in> set tgzs. snd q \<le> snd e) \<and>
         extract_package_path out tgzs =
           (if fst e = [] then Inl (RuntimeError (not_found_message out)) else Inr (fst e))"
    using extract_no_match_newest [of out tgzs] by blast
next
  show "\<exists>intro. not_found_message out = intro @ out"
    unfolding not_found_message_def by (metis append.assoc)
qed

lemma two_saved_lines_first: "re_search_saved two_saved_lines = Some ''a.tgz''"
  by code_simp

lemma two_saved_lines_last: "saved_group ''saved it to: b.tgz'' = Some ''b.tgz''"
  by code_simp

text \<open>
  C3 (as the claim words it) fails on an output with two matching lines: the path
  of the first line, \<open>a.tgz\<close>, is taken, not that of the last one, \<open>b.tgz\<close>.
\<close>

theorem extract_package_path_last_match_counterexample:
  "saved_group (drop 19 two_saved_lines) = Some ''b.tgz''
   \<and> saved_group (drop 0 two_saved_lines) = Some ''a.tgz''
   \<and> extract_package_path two_saved_lines [] = Inr ''a.tgz''
   \<and> extract_package_path two_saved_lines [] \<noteq> Inr ''b.tgz''"
  by code_simp


theorem extract_package_path_first_match_witness:
  "re_search_saved (''ok '' @ ''saved it to: b.tgz'') = Some ''b.tgz''
   \<and> saved_group ''Saved it to: b.tgz'' = Some ''b.tgz''
   \<and> extract_package_path two_saved_lines [(''/ws/dist/old.tgz'', 5)] = Inr ''a.tgz''
   \<and> re_search_saved ''no path here'' = None
   \<and> extract_package_path ''no path here'' []
       = Inl (RuntimeError (not_found_message ''no path here''))
   \<and> extract_package_path ''no path here'' [(''x.tgz'', 1), (''y.tgz'', 2)] = Inr ''y.tgz''"
proof -
  note t = extract_package_path_first_match
  have g: "saved_group ''saved it to: b.tgz'' = Some ''b.tgz''"
    by code_simp
  have n: "\<forall>i < length ''ok ''. saved_group (drop i ''ok '' @ ''saved it to: b.tgz'') = None"
  proof (intro allI impI)
    fix i :: nat assume "i < length ''ok ''"
    then consider "i = 0" | "i = 1" | "i = 2" by force
    then show "saved_group (drop i ''ok '' @ ''saved it to: b.tgz'') = None"
    proof cases
      case 1 then show ?thesis by (simp add: saved_group_def lower_char_def)
    next
      case 2 then show ?thesis by (simp add: saved_group_def lower_char_def)
    next
      case 3 then show ?thesis by (simp add: saved_group_def lower_char_def)
    qed
  qed
  have a: "re_search_saved (''ok '' @ ''saved it to: b.tgz'') = Some ''b.tgz''"
    using g n t [of "''saved it to: b.tgz''" "''b.tgz''" "''ok ''"] by blast
  have l: "startswith_ci ''Saved it to: b.tgz'' ''saved it to:''"
    by code_simp
  have b: "saved_group ''Saved it to: b.tgz'' = Some ''b.tgz''"
  proof -
    have "drop 12 ''Saved it to: b.tgz'' = '' '' @ ''b.tgz'' @ []" by simp
    moreover have "\<forall>c \<in> set '' ''. is_space c" by (simp add: is_space_def)
    moreover have "''b.tgz'' \<noteq> []" "\<not> is_space (hd ''b.tgz'')" "newline \<notin> set ''b.tgz''"
      by (simp_all add: is_space_def newline_def)
    ultimately show ?thesis
      using l t [of "''Saved it to: b.tgz''" _ _ "'' ''" "''b.tgz''" "[]"] by blast
  qed
  have m: "re_search_saved two_saved_lines = Some ''a.tgz''"
    by (rule two_saved_lines_first)
  have s: "strip ''a.tgz'' = ''a.tgz''"
    by (simp add: strip_def lstrip_def rstrip_def is_space_def)
  have c: "extract_package_path two_saved_lines [(''/ws/dist/old.tgz'', 5)] = Inr ''a.tgz''"
    using m t [of _ _ _ _ _ _ two_saved_lines "''a.tgz''" "[(''/ws/dist/old.tgz'', 5)]"]
    by (simp add: s)
  have d: "re_search_saved ''no path here'' = None"
    by code_simp
  have e: "extract_package_path ''no path here'' []
       = Inl (RuntimeError (not_found_message ''no path here''))"
    using d t [of _ _ _ _ _ _ "''no path here''" _ "[]"] by blast
  have "\<exists>e \<in> set [(''x.tgz'', 1), (''y.tgz'', 2 :: int)].
          (\<forall>q \<in> set [(''x.tgz'', 1), (''y.tgz'', 2 :: int)]. snd q \<le> snd e) \<and>
          extract_package_path ''no path here'' [(''x.tgz'', 1), (''y.tgz'', 2)] =
            (if fst e = [] then Inl (RuntimeError (not_found_message ''no path here''))
             else Inr (fst e))"
    using d t [of _ _ _ _ _ _ "''no path here''" _ "[(''x.tgz'', 1), (''y.tgz'', 2)]"] by blast
  then have f: "extract_package_path ''no path here'' [(''x.tgz'', 1), (''y.tgz'', 2)]
      = Inr ''y.tgz''"
    by auto
  show ?thesis by (intro conjI a b c d e f)
qed

section \<open>Properties of path resolution\<close>

lemma split_sep_not_Nil: "split_sep s \<noteq> []"
  by (induction s) (auto split: list.splits)

lemma split_sep_append: "split_sep (a @ CHR ''/'' # b) = split_sep a @ split_sep b"
proof (induction a)
  case Nil
  show ?case by simp
next
  case (Cons c a)
  obtain x xs where x: "split_sep a = x # xs"
    using split_sep_not_Nil [of a] by (cases "split_sep a") auto
  show ?case using Cons.IH by (simp add: x)
qed

lemma split_sep_no_sep: "CHR ''/'' \<notin> set s \<Longrightarrow> split_sep s = [s]"
  by (induction s) auto

lemma split_sep_comps: "x \<in> set (split_sep s) \<Longrightarrow> CHR ''/'' \<notin> set x"
proof (induction s arbitrary: x)
  case Nil
  then show ?case by simp
next
  case (Cons c s)
  obtain y ys where y: "split_sep s = y # ys"
    using split_sep_not_Nil [of s] by (cases "split_sep s") auto
  show ?case
  proof (cases "c = CHR ''/''")
    case True
    then show ?thesis using Cons by auto
  next
    case False
    then have "x = c # y \<or> x \<in> set ys" using Cons.prems by (simp add: y)
    then show ?thesis using Cons.IH [of y] Cons.IH [of x] False by (auto simp: y)
  qed
qed

lemma split_join_sep:
  "xs \<noteq> [] \<Longrightarrow> \<forall>x \<in> set xs. CHR ''/'' \<notin> set x \<Longrightarrow> split_sep (join_sep xs) = xs"
proof (induction xs rule: join_sep.induct)
  case 1
  then show ?case by simp
next
  case (2 x)
  then show ?case by (simp add: split_sep_no_sep)
next
  case (3 x y ys)
  then show ?case by (simp add: split_sep_append split_sep_no_sep)
qed

lemma set_butlast_subset: "set (butlast xs) \<subseteq> set xs"
  by (induction xs) auto

lemma norm_step_subset: "set (norm_step a acc c) \<subseteq> set acc \<union> ({c} - {[], ''.''})"
  using set_butlast_subset [of acc] by (auto simp: norm_step_def)

lemma norm_fold_subset:
  "set (foldl (norm_step a) acc xs) \<subseteq> set acc \<union> (set xs - {[], ''.''})"
proof (induction xs arbitrary: acc)
  case Nil
  show ?case by simp
next
  case (Cons c xs)
  show ?case using Cons.IH [of "norm_step a acc c"] norm_step_subset [of a acc c] by auto
qed

lemma norm_fold_clean: "clean acc \<Longrightarrow> clean (foldl (norm_step a) acc xs)"
  using norm_fold_subset [of a acc xs] by (auto simp: clean_def)

lemma norm_fold_no_sep:
  "\<forall>x \<in> set acc. CHR ''/'' \<notin> set x \<Longrightarrow> \<forall>x \<in> set xs. CHR ''/'' \<notin> set x \<Longrightarrow>
   \<forall>x \<in> set (foldl (norm_step a) acc xs). CHR ''/'' \<notin> set x"
  using norm_fold_subset [of a acc xs] by auto

lemma norm_fold_filter:
  "foldl (norm_step a) acc (filter (\<lambda>x. x \<noteq> []) xs) = foldl (norm_step a) acc xs"
  by (induction xs arbitrary: acc) (auto simp: norm_step_def)

lemma norm_fold_names: "names P \<Longrightarrow> foldl (norm_step a) acc P = acc @ P"
  by (induction P arbitrary: acc) (auto simp: names_def norm_step_def)

lemma norm_step_abs_no_dotdot:
  "''..'' \<notin> set acc \<Longrightarrow> ''..'' \<notin> set (norm_step True acc c)"
proof -
  assume a: "''..'' \<notin> set acc"
  have "acc \<noteq> [] \<longrightarrow> last acc \<noteq> ''..''" using a last_in_set [of acc] by metis
  then show ?thesis
    using a set_butlast_subset [of acc] by (auto simp: norm_step_def)
qed

lemma norm_fold_abs_no_dotdot:
  "''..'' \<notin> set acc \<Longrightarrow> ''..'' \<notin> set (foldl (norm_step True) acc xs)"
  by (induction xs arbitrary: acc) (auto simp: norm_step_abs_no_dotdot)

lemma norm_fold_abs_names: "names acc \<Longrightarrow> names (foldl (norm_step True) acc xs)"
proof -
  assume n: "names acc"
  then have "clean acc" "''..'' \<notin> set acc" by (auto simp: names_def clean_def)
  then have "clean (foldl (norm_step True) acc xs)" "''..'' \<notin> set (foldl (norm_step True) acc xs)"
    by (auto simp: norm_fold_clean norm_fold_abs_no_dotdot)
  then show ?thesis by (auto simp: names_def clean_def)
qed

lemma norm_step_commute:
  assumes "clean N"
  shows "foldl (norm_step a) acc (norm_step False N c) = norm_step a (foldl (norm_step a) acc N) c"
proof (cases "c = [] \<or> c = ''.''")
  case True
  then show ?thesis by (auto simp: norm_step_def)
next
  case False
  show ?thesis
  proof (cases "c = ''..'' \<and> N \<noteq> [] \<and> last N \<noteq> ''..''")
    case False
    with \<open>\<not> (c = [] \<or> c = ''.'')\<close> have "norm_step False N c = N @ [c]"
      by (auto simp: norm_step_def)
    then show ?thesis by simp
  next
    case True
    then obtain M n where N: "N = M @ [n]" by (metis append_butlast_last_id)
    with True have n: "n \<noteq> ''..''" by simp
    from assms N have n': "n \<noteq> []" "n \<noteq> ''.''" by (auto simp: clean_def)
    have l: "norm_step False N c = M" using True N n by (simp add: norm_step_def)
    let ?S = "foldl (norm_step a) acc M"
    have "norm_step a ?S n = ?S @ [n]" using n n' by (simp add: norm_step_def)
    then have "norm_step a (foldl (norm_step a) acc N) c = ?S"
      using True n by (simp add: N norm_step_def)
    then show ?thesis by (simp add: l)
  qed
qed

lemma norm_fold_relative_first:
  "foldl (norm_step a) acc xs = foldl (norm_step a) acc (foldl (norm_step False) [] xs)"
proof (induction xs rule: rev_induct)
  case Nil
  show ?case by simp
next
  case (snoc c xs)
  have c: "clean (foldl (norm_step False) [] xs)"
    by (rule norm_fold_clean) (simp add: clean_def)
  show ?case
    using snoc.IH norm_step_commute [OF c, of a acc c] by simp
qed

lemma filter_split_sep_slash:
  "filter (\<lambda>x. x \<noteq> []) (split_sep (CHR ''/'' # s)) = filter (\<lambda>x. x \<noteq> []) (split_sep s)"
  by simp

lemma filter_split_sep_slashes:
  "filter (\<lambda>x. x \<noteq> []) (split_sep (replicate k (CHR ''/'') @ s))
     = filter (\<lambda>x. x \<noteq> []) (split_sep s)"
  by (induction k) simp_all

lemma join_sep_Nil_iff: "clean xs \<Longrightarrow> join_sep xs = [] \<longleftrightarrow> xs = []"
  by (induction xs rule: join_sep.induct) (auto simp: clean_def)

lemma filter_clean: "clean xs \<Longrightarrow> filter (\<lambda>x. x \<noteq> []) xs = xs"
  by (induction xs) (auto simp: clean_def)

lemma tokens_join_sep:
  assumes "clean xs" "\<forall>x \<in> set xs. CHR ''/'' \<notin> set x"
  shows "filter (\<lambda>x. x \<noteq> []) (split_sep (join_sep xs)) = xs"
proof (cases "xs = []")
  case True
  then show ?thesis by simp
next
  case False
  then show ?thesis using assms by (simp add: split_join_sep filter_clean)
qed

lemma ncomps_clean: "clean (ncomps a path)"
  unfolding ncomps_def by (rule norm_fold_clean) (simp add: clean_def)

lemma ncomps_no_sep: "\<forall>x \<in> set (ncomps a path). CHR ''/'' \<notin> set x"
  unfolding ncomps_def by (rule norm_fold_no_sep) (auto dest: split_sep_comps)

lemma ncomps_abs_names: "names (ncomps True path)"
  unfolding ncomps_def by (rule norm_fold_abs_names) (simp add: names_def)

lemma isabs_Cons: "isabs s \<longleftrightarrow> (\<exists>t. s = CHR ''/'' # t)"
  unfolding isabs_def by (cases s) auto

lemma startswith_slash: "startswith s ''/'' \<longleftrightarrow> isabs s"
  by (simp add: isabs_def)

lemma normpath_unfold:
  "normpath path =
     (if path = [] then ''.''
      else let k = (if isabs path
                    then (if startswith path ''//'' \<and> \<not> startswith path ''///'' then 2 else 1)
                    else (0 :: nat));
               p = replicate k (CHR ''/'') @ join_sep (ncomps (isabs path) path)
           in if p = [] then ''.'' else p)"
  by (auto simp: normpath_def ncomps_def Let_def isabs_def)

lemma normpath_abs:
  assumes "isabs path"
  shows "\<exists>k > 0. normpath path = replicate k (CHR ''/'') @ join_sep (ncomps True path)"
proof -
  from assms have ne: "path \<noteq> []" by (auto simp: isabs_Cons)
  show ?thesis
  proof (cases "startswith path ''//'' \<and> \<not> startswith path ''///''")
    case True
    then have "normpath path = replicate 2 (CHR ''/'') @ join_sep (ncomps True path)"
      using assms ne by (simp add: normpath_unfold Let_def)
    then show ?thesis by (intro exI [of _ 2]) simp
  next
    case False
    then have "normpath path = replicate 1 (CHR ''/'') @ join_sep (ncomps True path)"
      using assms ne by (auto simp: normpath_unfold Let_def)
    then show ?thesis by (intro exI [of _ 1]) simp
  qed
qed

lemma normpath_rel:
  assumes "\<not> isabs path"
  shows "normpath path =
           (if ncomps False path = [] then ''.'' else join_sep (ncomps False path))"
proof (cases "path = []")
  case True
  then show ?thesis by (simp add: normpath_unfold ncomps_def norm_step_def)
next
  case False
  then show ?thesis
    using assms join_sep_Nil_iff [OF ncomps_clean, of False path]
    by (simp add: normpath_unfold Let_def)
qed

lemma isabs_normpath: "isabs (normpath path) \<longleftrightarrow> isabs path"
proof (cases "isabs path")
  case True
  then obtain k where "k > 0" "normpath path = replicate k (CHR ''/'') @ join_sep (ncomps True path)"
    using normpath_abs by blast
  then have "isabs (normpath path)" by (cases k) (auto simp: isabs_Cons)
  then show ?thesis using True by simp
next
  case False
  have "\<not> isabs (normpath path)"
  proof (cases "ncomps False path")
    case Nil
    then show ?thesis using False by (simp add: normpath_rel isabs_def)
  next
    case (Cons x xs)
    with ncomps_clean [of False path] ncomps_no_sep [of False path]
    have "x \<noteq> []" "CHR ''/'' \<notin> set x" by (auto simp: clean_def)
    then obtain c cs where "x = c # cs" "c \<noteq> CHR ''/''" by (cases x) auto
    then have "\<not> isabs (join_sep (x # xs))" by (cases xs) (auto simp: isabs_Cons)
    then show ?thesis using False Cons by (simp add: normpath_rel)
  qed
  then show ?thesis using False by simp
qed

lemma tokens_normpath_abs:
  assumes "isabs path"
  shows "filter (\<lambda>x. x \<noteq> []) (split_sep (normpath path)) = ncomps True path"
proof -
  obtain k where "normpath path = replicate k (CHR ''/'') @ join_sep (ncomps True path)"
    using normpath_abs [OF assms] by blast
  then show ?thesis
    by (simp add: filter_split_sep_slashes tokens_join_sep ncomps_clean ncomps_no_sep)
qed

lemma norm_fold_normpath:
  "foldl (norm_step a) acc (split_sep (normpath path))
     = foldl (norm_step a) acc (ncomps (isabs path) path)"
proof (cases "isabs path")
  case True
  have "foldl (norm_step a) acc (split_sep (normpath path))
          = foldl (norm_step a) acc (filter (\<lambda>x. x \<noteq> []) (split_sep (normpath path)))"
    by (simp add: norm_fold_filter)
  then show ?thesis using True by (simp add: tokens_normpath_abs)
next
  case False
  show ?thesis
  proof (cases "ncomps False path = []")
    case True
    then show ?thesis using False by (simp add: normpath_rel norm_step_def)
  next
    case ne: False
    have "split_sep (join_sep (ncomps False path)) = ncomps False path"
      using ne ncomps_no_sep [of False path] by (simp add: split_join_sep)
    then show ?thesis using False ne by (simp add: normpath_rel)
  qed
qed

lemma norm_fold_path_join:
  assumes "\<not> isabs b"
  shows "foldl (norm_step a) acc (split_sep (path_join x b))
           = foldl (norm_step a) acc (split_sep x @ split_sep b)"
proof -
  have nb: "\<not> startswith b ''/''" using assms by (simp add: isabs_def)
  show ?thesis
  proof (cases "x = []")
    case True
    then show ?thesis using nb by (simp add: path_join_def norm_step_def)
  next
    case False
    show ?thesis
    proof (cases "last x = CHR ''/''")
      case True
      then obtain y where y: "x = y @ [CHR ''/'']"
        using False by (metis append_butlast_last_id)
      have "split_sep x = split_sep y @ [[]]"
        using split_sep_append [of y "[]"] by (simp add: y)
      moreover have "split_sep (x @ b) = split_sep y @ split_sep b"
        using split_sep_append [of y b] by (simp add: y)
      ultimately show ?thesis
        using nb True False by (simp add: path_join_def norm_step_def)
    next
      case l: False
      then show ?thesis using nb False by (simp add: path_join_def split_sep_append)
    qed
  qed
qed

lemma isabs_path_join_rel: "\<not> isabs b \<Longrightarrow> isabs (path_join x b) \<longleftrightarrow> isabs x"
  by (cases x) (auto simp: path_join_def isabs_def)


lemma tokens_abspath_normpath:
  assumes "isabs cwd"
  shows "filter (\<lambda>x. x \<noteq> []) (split_sep (abspath cwd (normpath x))) = anchor cwd x"
proof (cases "isabs x")
  case True
  then have a: "isabs (normpath x)" by (simp add: isabs_normpath)
  have "filter (\<lambda>x. x \<noteq> []) (split_sep (abspath cwd (normpath x)))
          = ncomps True (normpath x)"
    using a by (simp add: abspath_def tokens_normpath_abs)
  also have "\<dots> = foldl (norm_step True) [] (ncomps True x)"
    unfolding ncomps_def [of True "normpath x"] using True by (simp add: norm_fold_normpath)
  also have "\<dots> = ncomps True x"
    using norm_fold_names [OF ncomps_abs_names, of True "[]" x] by simp
  finally show ?thesis using True by (simp add: anchor_def)
next
  case False
  then have r: "\<not> isabs (normpath x)" by (simp add: isabs_normpath)
  then have j: "isabs (path_join cwd (normpath x))"
    using assms by (simp add: isabs_path_join_rel)
  have "filter (\<lambda>x. x \<noteq> []) (split_sep (abspath cwd (normpath x)))
          = ncomps True (path_join cwd (normpath x))"
    using r j by (simp add: abspath_def tokens_normpath_abs)
  also have "\<dots> = foldl (norm_step True) [] (split_sep cwd @ split_sep (normpath x))"
    unfolding ncomps_def by (rule norm_fold_path_join [OF r])
  also have "\<dots> = foldl (norm_step True) (ncomps True cwd) (split_sep (normpath x))"
    by (simp add: ncomps_def)
  also have "\<dots> = foldl (norm_step True) (ncomps True cwd) (ncomps False x)"
    using False by (simp add: norm_fold_normpath)
  also have "\<dots> = foldl (norm_step True) (ncomps True cwd) (split_sep x)"
    unfolding ncomps_def [of False x] by (rule norm_fold_relative_first [symmetric])
  finally show ?thesis using False by (simp add: anchor_def)
qed

lemma anchor_normpath: "anchor cwd (normpath x) = anchor cwd x"
proof (cases "isabs x")
  case True
  have "ncomps True (normpath x) = foldl (norm_step True) [] (ncomps True x)"
    unfolding ncomps_def [of True "normpath x"] using True by (simp add: norm_fold_normpath)
  also have "\<dots> = ncomps True x"
    using norm_fold_names [OF ncomps_abs_names, of True "[]" x] by simp
  finally show ?thesis using True by (simp add: anchor_def isabs_normpath)
next
  case False
  have "foldl (norm_step True) (ncomps True cwd) (split_sep (normpath x))
          = foldl (norm_step True) (ncomps True cwd) (ncomps False x)"
    using False by (simp add: norm_fold_normpath)
  also have "\<dots> = foldl (norm_step True) (ncomps True cwd) (split_sep x)"
    unfolding ncomps_def [of False x] by (rule norm_fold_relative_first [symmetric])
  finally show ?thesis using False by (simp add: anchor_def isabs_normpath)
qed

lemma anchor_path_join:
  assumes "\<not> isabs p"
  shows "anchor cwd (path_join ws p) = foldl (norm_step True) (anchor cwd ws) (split_sep p)"
proof (cases "isabs ws")
  case True
  then have "isabs (path_join ws p)" using assms by (simp add: isabs_path_join_rel)
  then show ?thesis
    using True by (simp add: anchor_def ncomps_def norm_fold_path_join [OF assms])
next
  case False
  then have "\<not> isabs (path_join ws p)" using assms by (simp add: isabs_path_join_rel)
  then show ?thesis
    using False by (simp add: anchor_def norm_fold_path_join [OF assms])
qed

lemma norm_fold_onto:
  assumes "names (ncomps False p)"
  shows "foldl (norm_step True) W (split_sep p) = W @ ncomps False p"
proof -
  have "foldl (norm_step True) W (split_sep p) = foldl (norm_step True) W (ncomps False p)"
    unfolding ncomps_def by (rule norm_fold_relative_first)
  then show ?thesis using norm_fold_names [OF assms] by simp
qed

lemma common_prefix_append: "common_prefix W (W @ P) = W"
  by (induction W) simp_all

lemma foldl_path_join_names:
  assumes "acc \<noteq> []" "last acc \<noteq> CHR ''/''"
    and "\<forall>x \<in> set xs. x \<noteq> [] \<and> CHR ''/'' \<notin> set x"
  shows "foldl path_join acc xs = acc @ concat (map (\<lambda>x. CHR ''/'' # x) xs)"
  using assms
proof (induction xs arbitrary: acc)
  case Nil
  show ?case by simp
next
  case (Cons x xs)
  from Cons.prems(3) obtain c cs where x: "x = c # cs" "c \<noteq> CHR ''/''"
    by (cases x) auto
  have l: "last x \<noteq> CHR ''/''" using Cons.prems(3) last_in_set [of x] by force
  have j: "path_join acc x = acc @ CHR ''/'' # x"
    using Cons.prems(1,2) x by (simp add: path_join_def)
  have "foldl path_join (acc @ CHR ''/'' # x) xs
          = (acc @ CHR ''/'' # x) @ concat (map (\<lambda>x. CHR ''/'' # x) xs)"
  proof (rule Cons.IH)
    show "acc @ CHR ''/'' # x \<noteq> []" by simp
    show "last (acc @ CHR ''/'' # x) \<noteq> CHR ''/''" using l x by simp
    show "\<forall>x \<in> set xs. x \<noteq> [] \<and> CHR ''/'' \<notin> set x" using Cons.prems(3) by simp
  qed
  then show ?case by (simp add: j)
qed

lemma join_sep_concat:
  "join_sep (x # xs) = x @ concat (map (\<lambda>x. CHR ''/'' # x) xs)"
  by (induction xs arbitrary: x) simp_all

lemma join_all_names:
  assumes "P \<noteq> []" "clean P" "\<forall>x \<in> set P. CHR ''/'' \<notin> set x"
  shows "join_all P = join_sep P"
proof -
  obtain x xs where P: "P = x # xs" using assms(1) by (cases P) auto
  have x: "x \<noteq> []" using assms(2) by (simp add: P clean_def)
  have l: "last x \<noteq> CHR ''/''" using assms(3) x last_in_set [of x] by (force simp: P)
  have "foldl path_join x xs = x @ concat (map (\<lambda>x. CHR ''/'' # x) xs)"
    using x l assms(2,3) by (intro foldl_path_join_names) (auto simp: P clean_def)
  then show ?thesis by (simp add: P join_all_def join_sep_concat)
qed

lemma normpath_not_Nil: "normpath path \<noteq> []"
  by (simp add: normpath_def Let_def)

lemma roundtrip_names:
  assumes cwd: "isabs cwd" and p: "\<not> isabs p" and n: "names (ncomps False p)"
  shows "workspace_relpath cwd ws (resolve_path ws p) = normpath p"
proof -
  let ?W = "anchor cwd ws"
  let ?P = "ncomps False p"
  let ?R = "resolve_path ws p"
  have R: "?R = normpath (path_join ws p)" using p by (simp add: resolve_path_def)
  have start: "filter (\<lambda>x. x \<noteq> []) (split_sep (abspath cwd (normpath ws))) = ?W"
    by (rule tokens_abspath_normpath [OF cwd])
  have "filter (\<lambda>x. x \<noteq> []) (split_sep (abspath cwd (normpath ?R))) = anchor cwd ?R"
    by (rule tokens_abspath_normpath [OF cwd])
  also have "\<dots> = anchor cwd (path_join ws p)" by (simp add: R anchor_normpath)
  also have "\<dots> = foldl (norm_step True) ?W (split_sep p)" by (rule anchor_path_join [OF p])
  also have "\<dots> = ?W @ ?P" by (rule norm_fold_onto [OF n])
  finally have path: "filter (\<lambda>x. x \<noteq> []) (split_sep (abspath cwd (normpath ?R))) = ?W @ ?P" .
  have rel: "relpath cwd (normpath ?R) (normpath ws)
               = Inr (if ?P = [] then ''.'' else join_all ?P)"
    by (simp add: relpath_def normpath_not_Nil start path common_prefix_append Let_def)
  have c: "clean ?P" by (rule ncomps_clean)
  have "join_all ?P = join_sep ?P" if "?P \<noteq> []"
    using that c ncomps_no_sep [of False p] by (rule join_all_names)
  then have "workspace_relpath cwd ws ?R = (if ?P = [] then ''.'' else join_sep ?P)"
    by (simp add: workspace_relpath_def rel Let_def)
  then show ?thesis using p by (simp add: normpath_rel)
qed

lemma no_dotdot_names:
  assumes p: "\<not> isabs p" and d: "''..'' \<notin> set (split_sep (normpath p))"
  shows "names (ncomps False p)"
proof -
  have c: "clean (ncomps False p)" by (rule ncomps_clean)
  have "''..'' \<notin> set (ncomps False p)"
  proof (cases "ncomps False p = []")
    case True
    then show ?thesis by simp
  next
    case False
    then have "split_sep (normpath p) = ncomps False p"
      using p ncomps_no_sep [of False p] by (simp add: normpath_rel split_join_sep)
    then show ?thesis using d by simp
  qed
  then show ?thesis using c by (auto simp: names_def clean_def)
qed

lemma normpath_idem_names:
  assumes p: "\<not> isabs p" and n: "names (ncomps False p)"
  shows "normpath (normpath p) = normpath p"
proof (cases "ncomps False p = []")
  case True
  then have "normpath p = ''.''" using p by (simp add: normpath_rel)
  moreover have "normpath ''.'' = ''.''"
    by (simp add: normpath_def norm_step_def)
  ultimately show ?thesis by simp
next
  case False
  let ?P = "ncomps False p"
  have np: "normpath p = join_sep ?P" using p False by (simp add: normpath_rel)
  have r: "\<not> isabs (join_sep ?P)" using isabs_normpath [of p] p by (simp add: np)
  have s: "split_sep (join_sep ?P) = ?P"
    using False ncomps_no_sep [of False p] by (simp add: split_join_sep)
  have "ncomps False (join_sep ?P) = ?P"
    unfolding ncomps_def [of False "join_sep ?P"] s using norm_fold_names [OF n, of False "[]"]
    by simp
  then have "normpath (join_sep ?P) = join_sep ?P"
    using r False by (simp add: normpath_rel)
  then show ?thesis by (simp add: np)
qed

text \<open>
  C8 (as the claim words it) fails for a relative path that climbs out of the
  root and comes back into it: \<open>../ws/x\<close> resolved against \<open>/ws\<close> is \<open>/ws/x\<close>, which
  lies under the root, yet the path reported for it is \<open>x\<close>, and \<open>x\<close> is not equal
  to \<open>../ws/x\<close> under normalization.
\<close>

theorem workspace_relpath_reentry_counterexample:
  "\<not> isabs ''../ws/x''
   \<and> resolve_path ''/ws'' ''../ws/x'' = ''/ws/x''
   \<and> startswith (resolve_path ''/ws'' ''../ws/x'') ''/ws/''
   \<and> workspace_relpath ''/'' ''/ws'' (resolve_path ''/ws'' ''../ws/x'') = ''x''
   \<and> normpath ''../ws/x'' = ''../ws/x''
   \<and> normpath (workspace_relpath ''/'' ''/ws'' (resolve_path ''/ws'' ''../ws/x''))
       \<noteq> normpath ''../ws/x''"
  by code_simp

text \<open>
  C8 (as the code has it). For every workspace root \<open>ws\<close>, whatever the (absolute)
  working directory, and every relative path \<open>p\<close> whose normal form has no \<open>..\<close>
  component, so that \<open>p\<close> never climbs: \<open>workspace_relpath ws (resolve_path ws p)\<close> is
  the normal form of \<open>p\<close>, and therefore equal to \<open>p\<close> under normalization. In
  particular the round trip of \<open>dist/x.tgz\<close> gives \<open>dist/x.tgz\<close>.
\<close>

theorem workspace_relpath_roundtrip:
  "(isabs cwd \<and> \<not> isabs p \<and> ''..'' \<notin> set (split_sep (normpath p)) \<longrightarrow>
      workspace_relpath cwd ws (resolve_path ws p) = normpath p
      \<and> normpath (workspace_relpath cwd ws (resolve_path ws p)) = normpath p)
   \<and> (isabs cwd \<longrightarrow>
      workspace_relpath cwd ws (resolve_path ws ''dist/x.tgz'') = ''dist/x.tgz''
      \<and> normpath (workspace_relpath cwd ws (resolve_path ws ''dist/x.tgz''))
          = normpath ''dist/x.tgz'')"
proof (intro conjI impI)
  assume a: "isabs cwd \<and> \<not> isabs p \<and> ''..'' \<notin> set (split_sep (normpath p))"
  then have n: "names (ncomps False p)" using no_dotdot_names [of p] by blast
  show r: "workspace_relpath cwd ws (resolve_path ws p) = normpath p"
    using a n roundtrip_names [of cwd p ws] by blast
  show "normpath (workspace_relpath cwd ws (resolve_path ws p)) = normpath p"
    unfolding r using a n normpath_idem_names [of p] by blast
next
  assume c: "isabs cwd"
  have p: "\<not> isabs ''dist/x.tgz''" by (simp add: isabs_def)
  have np: "normpath ''dist/x.tgz'' = ''dist/x.tgz''" by code_simp
  have d: "''..'' \<notin> set (split_sep (normpath ''dist/x.tgz''))"
    unfolding np by simp
  have n: "names (ncomps False ''dist/x.tgz'')" using p d by (rule no_dotdot_names)
  show r: "workspace_relpath cwd ws (resolve_path ws ''dist/x.tgz'') = ''dist/x.tgz''"
    using roundtrip_names [OF c p n, of ws] by (simp add: np)
  show "normpath (workspace_relpath cwd ws (resolve_path ws ''dist/x.tgz''))
          = normpath ''dist/x.tgz''"
    unfolding r ..
qed

theorem workspace_relpath_roundtrip_witness:
  "isabs ''/'' \<and> \<not> isabs ''charts/../dist//x.tgz''
   \<and> ''..'' \<notin> set (split_sep (normpath ''charts/../dist//x.tgz''))
   \<and> workspace_relpath ''/'' ''/github/workspace''
        (resolve_path ''/github/workspace'' ''charts/../dist//x.tgz'') = ''dist/x.tgz''
   \<and> workspace_relpath ''/'' ''/github/workspace''
        (resolve_path ''/github/workspace'' ''dist/x.tgz'') = ''dist/x.tgz''"
proof -
  have c: "isabs ''/''" by (simp add: isabs_def)
  have p: "\<not> isabs ''charts/../dist//x.tgz''" by (simp add: isabs_def)
  have np: "normpath ''charts/../dist//x.tgz'' = ''dist/x.tgz''" by code_simp
  have d: "''..'' \<notin> set (split_sep (normpath ''charts/../dist//x.tgz''))"
    unfolding np by simp
  note t = workspace_relpath_roundtrip
    [of "''/''" "''charts/../dist//x.tgz''" "''/github/workspace''"]
  have a: "workspace_relpath ''/'' ''/github/workspace''
        (resolve_path ''/github/workspace'' ''charts/../dist//x.tgz'') = ''dist/x.tgz''"
    using t c p d np by simp
  have b: "workspace_relpath ''/'' ''/github/workspace''
        (resolve_path ''/github/workspace'' ''dist/x.tgz'') = ''dist/x.tgz''"
    using t c by blast
  show ?thesis by (intro conjI c p d a b)
qed

section \<open>Properties of locations\<close>

lemma locate_anchor:
  assumes "isabs cwd"
  shows "locate cwd x = anchor cwd x"
proof (cases "isabs x")
  case True
  then show ?thesis by (simp add: locate_def abspath_def tokens_normpath_abs anchor_def)
next
  case False
  then have j: "isabs (path_join cwd x)" using assms by (simp add: isabs_path_join_rel)
  have "locate cwd x = ncomps True (path_join cwd x)"
    using False j by (simp add: locate_def abspath_def tokens_normpath_abs)
  also have "\<dots> = foldl (norm_step True) [] (split_sep cwd @ split_sep x)"
    unfolding ncomps_def by (rule norm_fold_path_join [OF False])
  finally show ?thesis using False by (simp add: anchor_def ncomps_def)
qed

lemma anchor_names:
  assumes "isabs cwd"
  shows "names (anchor cwd x)"
proof (cases "isabs x")
  case True
  then show ?thesis by (simp add: anchor_def ncomps_abs_names)
next
  case False
  then show ?thesis
    by (simp add: anchor_def norm_fold_abs_names ncomps_abs_names)
qed

lemma locate_join:
  assumes "isabs cwd" "CHR ''/'' \<notin> set c"
  shows "locate cwd (path_join x c) = norm_step True (locate cwd x) c"
proof -
  have r: "\<not> isabs c" using assms(2) by (auto simp: isabs_Cons)
  have "anchor cwd (path_join x c) = foldl (norm_step True) (anchor cwd x) (split_sep c)"
    by (rule anchor_path_join [OF r])
  then show ?thesis
    using assms by (simp add: locate_anchor split_sep_no_sep)
qed

lemma locate_join_name:
  assumes "isabs cwd" "CHR ''/'' \<notin> set c" "c \<noteq> []" "c \<noteq> ''.''" "c \<noteq> ''..''"
  shows "locate cwd (path_join x c) = locate cwd x @ [c]"
  using assms by (simp add: locate_join norm_step_def)

lemma locate_abspath:
  assumes "isabs cwd"
  shows "locate cwd (abspath cwd x) = locate cwd x"
proof -
  let ?y = "if isabs x then x else path_join cwd x"
  have "locate cwd (normpath ?y) = anchor cwd ?y"
    unfolding locate_def by (rule tokens_abspath_normpath [OF assms])
  moreover have "isabs ?y" using assms by (simp add: isabs_path_join_rel)
  then have "anchor cwd ?y = ncomps True ?y" by (simp add: anchor_def)
  moreover have "locate cwd x = ncomps True ?y"
    using \<open>isabs ?y\<close> by (simp add: locate_def abspath_def tokens_normpath_abs)
  ultimately show ?thesis by (simp add: abspath_def)
qed

lemma locate_normpath:
  assumes "isabs cwd"
  shows "locate cwd (normpath x) = locate cwd x"
  using assms by (simp add: locate_anchor anchor_normpath)

lemma basename_no_sep: "CHR ''/'' \<notin> set (basename p)"
proof -
  have "CHR ''/'' \<notin> set (takeWhile (\<lambda>c. c \<noteq> CHR ''/'') (rev p))"
    by (auto dest: set_takeWhileD)
  then show ?thesis by (simp add: basename_def)
qed

section \<open>Properties of the directory creation\<close>


lemma mkdirs_adds:
  "mkdirs fs rk = Inr fs' \<Longrightarrow> fs' q \<noteq> fs q \<Longrightarrow>
   fs q = None \<and> fs' q = Some Dir \<and> prefix q (rev rk) \<and> q \<noteq> []"
proof (induction rk arbitrary: fs')
  case Nil
  then show ?case by (simp split: if_splits)
next
  case (Cons c up)
  let ?r = "if fs (rev up) = None then mkdirs fs up else Inr fs"
  from Cons.prems(1) obtain fs1 where r: "?r = Inr fs1"
    by (cases ?r) (simp_all del: mkdirs.simps(1))
  have step: "fs1 q \<noteq> fs q \<Longrightarrow>
      fs q = None \<and> fs1 q = Some Dir \<and> prefix q (rev up) \<and> q \<noteq> []"
    using r Cons.IH [of fs1] by (auto split: if_splits)
  have fs': "fs' = (if fs1 (rev up) = Some Dir \<and> fs1 (rev up @ [c]) = None
                   then fs1(rev up @ [c] \<mapsto> Dir) else fs1)"
    using Cons.prems(1) r by (auto split: if_splits)
  show ?case
  proof (cases "fs' q = fs1 q")
    case True
    then have "fs1 q \<noteq> fs q" using Cons.prems(2) by simp
    from step [OF this] show ?thesis using True by (auto intro: prefix_order.trans)
  next
    case False
    then have q: "q = rev up @ [c]" "fs1 q = None" "fs' q = Some Dir"
      by (auto simp: fs' split: if_splits)
    have "fs q = None"
    proof (rule ccontr)
      assume "fs q \<noteq> None"
      then have "fs1 q \<noteq> fs q" using q(2) by auto
      from step [OF this] show False using \<open>fs q \<noteq> None\<close> by simp
    qed
    then show ?thesis using q by simp
  qed
qed

lemma mkdirs_keeps: "mkdirs fs rk = Inr fs' \<Longrightarrow> fs q \<noteq> None \<Longrightarrow> fs' q = fs q"
proof (rule ccontr)
  assume a: "mkdirs fs rk = Inr fs'" "fs q \<noteq> None" "fs' q \<noteq> fs q"
  from mkdirs_adds [OF a(1) a(3)] show False using a(2) by simp
qed



lemma butlast_snoc_prefix: "k \<noteq> [] \<Longrightarrow> prefix (butlast k) k"
  by (metis append_butlast_last_id prefixI)





section \<open>The order of the effects of a run\<close>









lemma extends_makedirs: "extends (makedirs cwd p)"
  by (auto simp: extends_def makedirs_def log_def split: sum.splits)














lemma main_body_unfold:
  "read_inputs environ = Inr i \<Longrightarrow>
   main_body ext environ =
     and_then (prepare ext i)
       (\<lambda>p. and_then (install_helm ext (helm_version i))
          (\<lambda>_. and_then (build_workspace ext (workspace i) (fst p)
                            (parse_values_files (values_files_raw i)))
             (\<lambda>chart_path_for_packaging.
                package ext environ i chart_path_for_packaging (snd p))))"
  by (rule ext)
     (simp add: main_body_def of_result_def ret_def and_then_def
           split: sum.splits prod.splits)












section \<open>The life of the temporary workspace\<close>

lemma stableI:
  assumes "\<And>w r w'. m w = (r, w') \<Longrightarrow>
             \<exists>evs. trace w' = trace w @ evs \<and> (\<forall>t. EvMkdtemp t \<notin> set evs)"
    and "\<And>w r w' k. m w = (r, w') \<Longrightarrow> files w k = Some Dir \<Longrightarrow> files w' k = Some Dir"
  shows "stable m"
  unfolding stable_def quiet_def using assms by blast

lemma stable_quiet:
  "stable m \<Longrightarrow> m w = (r, w') \<Longrightarrow>
   \<exists>evs. trace w' = trace w @ evs \<and> (\<forall>t. EvMkdtemp t \<notin> set evs)"
  unfolding stable_def quiet_def by blast

lemma stable_keeps:
  "stable m \<Longrightarrow> m w = (r, w') \<Longrightarrow> files w k = Some Dir \<Longrightarrow> files w' k = Some Dir"
  unfolding stable_def by blast

lemma stable_ret: "stable (ret x)"
  by (rule stableI) (auto simp: ret_def)

lemma stable_raise: "stable (raise e)"
  by (rule stableI) (auto simp: raise_def)

lemma stable_of_result: "stable (of_result r)"
  by (cases r) (auto simp: of_result_def stable_ret stable_raise)

lemma stable_and_then:
  assumes "stable m" "\<And>x. stable (f x)"
  shows "stable (and_then m f)"
proof (rule stableI)
  fix w r w' assume a: "and_then m f w = (r, w')"
  obtain r1 w1 where m: "m w = (r1, w1)" by (cases "m w")
  from stable_quiet [OF assms(1) m] obtain e1
    where e1: "trace w1 = trace w @ e1" "\<forall>t. EvMkdtemp t \<notin> set e1" by blast
  show "\<exists>evs. trace w' = trace w @ evs \<and> (\<forall>t. EvMkdtemp t \<notin> set evs)"
  proof (cases r1)
    case (Inl e)
    then have "w' = w1" using a m by (simp add: and_then_def)
    then show ?thesis using e1 by blast
  next
    case (Inr x)
    then have "f x w1 = (r, w')" using a m by (simp add: and_then_def)
    from stable_quiet [OF assms(2) this] obtain e2
      where e2: "trace w' = trace w1 @ e2" "\<forall>t. EvMkdtemp t \<notin> set e2" by blast
    have "trace w' = trace w @ (e1 @ e2)" using e1(1) e2(1) by simp
    moreover have "\<forall>t. EvMkdtemp t \<notin> set (e1 @ e2)" using e1(2) e2(2) by simp
    ultimately show ?thesis by blast
  qed
next
  fix w r w' k assume a: "and_then m f w = (r, w')" and k: "files w k = Some Dir"
  obtain r1 w1 where m: "m w = (r1, w1)" by (cases "m w")
  have k1: "files w1 k = Some Dir" by (rule stable_keeps [OF assms(1) m k])
  show "files w' k = Some Dir"
  proof (cases r1)
    case (Inl e)
    then have "w' = w1" using a m by (simp add: and_then_def)
    then show ?thesis using k1 by simp
  next
    case (Inr x)
    then have "f x w1 = (r, w')" using a m by (simp add: and_then_def)
    from stable_keeps [OF assms(2) this k1] show ?thesis .
  qed
qed

lemma stable_if: "stable a \<Longrightarrow> stable b \<Longrightarrow> stable (if c then a else b)"
  by simp

lemma stable_read_file: "stable (read_file cwd p)"
  by (rule stableI) (auto simp: read_file_def split: option.splits node.splits)

lemma stable_makedirs: "stable (makedirs cwd p)"
proof (rule stableI)
  fix w r w' assume "makedirs cwd p w = (r, w')"
  then show "\<exists>evs. trace w' = trace w @ evs \<and> (\<forall>t. EvMkdtemp t \<notin> set evs)"
    by (auto simp: makedirs_def log_def split: sum.splits)
next
  fix w r w' k assume a: "makedirs cwd p w = (r, w')" and k: "files w k = Some Dir"
  show "files w' k = Some Dir"
  proof (cases "mkdirs (files w) (rev (locate cwd p))")
    case (Inl e)
    then show ?thesis using a k by (auto simp: makedirs_def)
  next
    case (Inr fs)
    then have "files w' = fs" using a by (auto simp: makedirs_def log_def)
    then show ?thesis using mkdirs_keeps [OF Inr, of k] k by simp
  qed
qed

lemma stable_write_file: "stable (write_file cwd p c)"
  by (rule stableI) (auto simp: write_file_def log_def Let_def split: if_splits)

lemma stable_append_file: "stable (append_file cwd p c)"
  by (rule stableI) (auto simp: append_file_def log_def Let_def split: if_splits)

lemma stable_run: "keeps_directories ext \<Longrightarrow> stable (run ext cmd)"
proof (rule stableI)
  fix w r w' assume "run ext cmd w = (r, w')"
  then show "\<exists>evs. trace w' = trace w @ evs \<and> (\<forall>t. EvMkdtemp t \<notin> set evs)"
    by (auto simp: run_def log_def split: prod.splits)
next
  fix w r w' k
  assume kd: "keeps_directories ext" and a: "run ext cmd w = (r, w')"
    and k: "files w k = Some Dir"
  have "files w' = snd (subprocess_run ext cmd (files w))"
    using a by (auto simp: run_def log_def split: prod.splits)
  then show "files w' k = Some Dir" using kd k unfolding keeps_directories_def by simp
qed

lemma stable_install_helm: "keeps_directories ext \<Longrightarrow> stable (install_helm ext v)"
  unfolding install_helm_def
proof (intro stable_and_then stable_of_result, rule stableI)
  fix version w r w'
  assume "(case helm_setup ext version (files w) of
            (r, fs) \<Rightarrow> ((case r of Some e \<Rightarrow> Inl e | None \<Rightarrow> Inr ()),
                        log (EvInstall version) (w\<lparr>files := fs\<rparr>))) = (r, w')"
  then show "\<exists>evs. trace w' = trace w @ evs \<and> (\<forall>t. EvMkdtemp t \<notin> set evs)"
    by (auto simp: log_def split: prod.splits)
next
  fix version w r w' k
  assume kd: "keeps_directories ext"
    and a: "(case helm_setup ext version (files w) of
            (r, fs) \<Rightarrow> ((case r of Some e \<Rightarrow> Inl e | None \<Rightarrow> Inr ()),
                        log (EvInstall version) (w\<lparr>files := fs\<rparr>))) = (r, w')"
    and k: "files w k = Some Dir"
  have "files w' = snd (helm_setup ext version (files w))"
    using a by (auto simp: log_def split: prod.splits)
  then show "files w' k = Some Dir" using kd k unfolding keeps_directories_def by simp
qed

lemma stable_write_output: "stable (write_output cwd environ name val)"
  unfolding write_output_def
  by (auto simp: stable_append_file split: option.splits)
     (auto intro!: stableI simp: log_def)

lemma stable_of_state:
  assumes "\<And>x. stable (f x)"
  shows "stable (\<lambda>w. and_then (of_result (g (files w))) f w)"
proof -
  have s: "stable (and_then (of_result (g fs)) f)" for fs
    by (intro stable_and_then stable_of_result assms)
  show ?thesis
  proof (rule stableI)
    fix w r w' assume "and_then (of_result (g (files w))) f w = (r, w')"
    then show "\<exists>evs. trace w' = trace w @ evs \<and> (\<forall>t. EvMkdtemp t \<notin> set evs)"
      by (rule stable_quiet [OF s])
  next
    fix w r w' k
    assume "and_then (of_result (g (files w))) f w = (r, w')" "files w k = Some Dir"
    then show "files w' k = Some Dir" by (rule stable_keeps [OF s])
  qed
qed

lemma stable_package:
  "keeps_directories ext \<Longrightarrow> stable (package ext environ i cp dst)"
  unfolding package_def Let_def
  by (intro stable_if stable_and_then stable_ret stable_raise stable_run
        stable_of_result stable_of_state stable_write_output)

lemma stable_prepare: "stable (prepare ext i)"
proof -
  have s: "stable (and_then (makedirs (getcwd ext) d) (\<lambda>_. ret (c, d)))" for c d
    by (intro stable_and_then stable_makedirs stable_ret)
  show ?thesis
  proof (rule stableI)
    fix w r w' assume a: "prepare ext i w = (r, w')"
    show "\<exists>evs. trace w' = trace w @ evs \<and> (\<forall>t. EvMkdtemp t \<notin> set evs)"
      using a stable_quiet [OF s, of _ _ w r w']
      by (auto simp: prepare_def raise_def Let_def split: if_splits)
  next
    fix w r w' k assume a: "prepare ext i w = (r, w')" and k: "files w k = Some Dir"
    show "files w' k = Some Dir"
      using a k stable_keeps [OF s, of _ _ w r w' k]
      by (auto simp: prepare_def raise_def Let_def split: if_splits)
  qed
qed

lemma merge_values_files_pure:
  "merge_values_files ext cp acc rels w = (r, w') \<Longrightarrow> w' = w"
proof (induction rels arbitrary: acc r)
  case Nil
  then show ?case by (simp add: ret_def)
next
  case (Cons rel rels)
  show ?case
  proof (cases "isfile (getcwd ext) (files w) (normpath (path_join cp rel))")
    case False
    then show ?thesis using Cons.prems by (simp add: Let_def)
  next
    case True
    obtain r1 w1 where l: "load_yaml_file ext (normpath (path_join cp rel)) w = (r1, w1)"
      by (cases "load_yaml_file ext (normpath (path_join cp rel)) w")
    then have w1: "w1 = w"
      by (auto simp: load_yaml_file_def read_file_def and_then_def of_result_def ret_def
            raise_def split: option.splits node.splits sum.splits)
    show ?thesis
    proof (cases r1)
      case (Inl e)
      then show ?thesis using Cons.prems True l w1 by (simp add: Let_def and_then_def)
    next
      case (Inr doc)
      then have "merge_values_files ext cp (deep_merge_values acc doc) rels w = (r, w')"
        using Cons.prems True l w1 by (simp add: Let_def and_then_def)
      then show ?thesis by (rule Cons.IH)
    qed
  qed
qed

lemma mkdtemp_pick_Some:
  "mkdtemp_pick fs parent pre ns = Some n \<Longrightarrow> n \<in> set ns \<and> fs (parent @ [pre @ n]) = None"
  by (induction ns) (auto split: option.splits)

lemma mkdtemp_result:
  assumes "mkdtemp cwd ns pre dir w = (Inr p, w1)"
  shows "\<exists>n. n \<in> set ns \<and> p = abspath cwd (path_join dir (pre @ n))
           \<and> files w (locate cwd dir) = Some Dir
           \<and> files w (locate cwd dir @ [pre @ n]) = None
           \<and> files w1 = (files w)(locate cwd dir @ [pre @ n] \<mapsto> Dir)
           \<and> trace w1 = trace w @ [EvMkdtemp (locate cwd dir @ [pre @ n])]"
  using assms
  by (auto simp: mkdtemp_def Let_def log_def dest: mkdtemp_pick_Some
        split: if_splits option.splits)

lemma mkdtemp_error:
  "mkdtemp cwd ns pre dir w = (Inl e, w1) \<Longrightarrow> w1 = w"
  by (auto simp: mkdtemp_def Let_def split: if_splits option.splits)

lemma temporary_location:
  assumes "isabs cwd" "CHR ''/'' \<notin> set n"
  shows "locate cwd (abspath cwd (path_join dir (''.dist-temporary-'' @ n)))
         = locate cwd dir @ [''.dist-temporary-'' @ n]"
  using assms by (simp add: locate_abspath locate_join_name)

lemma copytree_quiet:
  "copytree cwd src dst w = (r, w') \<Longrightarrow>
   \<exists>evs. trace w' = trace w @ evs \<and> (\<forall>t. EvMkdtemp t \<notin> set evs)"
  by (auto simp: copytree_def log_def Let_def split: if_splits sum.splits)

lemma copytree_keeps:
  assumes "copytree cwd src dst w = (r, w')" "files w k = Some Dir"
    and "\<not> prefix (locate cwd dst) k \<or> files w (locate cwd dst) \<noteq> None"
  shows "files w' k = Some Dir"
proof -
  let ?s = "locate cwd src" and ?d = "locate cwd dst"
  show ?thesis
  proof (cases "files w ?s \<noteq> Some Dir \<or> files w ?d \<noteq> None")
    case True
    then have "w' = w" using assms(1) by (auto simp: copytree_def Let_def split: if_splits)
    then show ?thesis using assms(2) by simp
  next
    case False
    then have np: "\<not> prefix ?d k" and kd: "k \<noteq> ?d" using assms(2,3) by auto
    show ?thesis
    proof (cases "mkdirs (files w) (rev (butlast ?d))")
      case (Inl e)
      then have "w' = w" using assms(1) False by (auto simp: copytree_def Let_def)
      then show ?thesis using assms(2) by simp
    next
      case (Inr fs)
      have fk: "fs k = Some Dir" using mkdirs_keeps [OF Inr, of k] assms(2) by simp
      show ?thesis
        using assms(1) False Inr fk np kd
        by (auto simp: copytree_def Let_def log_def split: if_splits)
    qed
  qed
qed

lemma norm_step_cases:
  "norm_step True t c = t \<or> (t \<noteq> [] \<and> norm_step True t c = butlast t)
   \<or> norm_step True t c = t @ [c]"
  by (simp add: norm_step_def)

lemma settledI:
  "(\<And>w r w'. m w = (r, w') \<Longrightarrow>
      \<exists>evs. trace w' = trace w @ evs
         \<and> (\<forall>t. EvMkdtemp t \<in> set evs \<longrightarrow> files w' t = Some Dir)) \<Longrightarrow> settled m"
  unfolding settled_def by blast

lemma settledD:
  "settled m \<Longrightarrow> m w = (r, w') \<Longrightarrow>
   \<exists>evs. trace w' = trace w @ evs \<and> (\<forall>t. EvMkdtemp t \<in> set evs \<longrightarrow> files w' t = Some Dir)"
  unfolding settled_def by blast

lemma stable_then_settled:
  assumes "stable m" "\<And>x. settled (f x)"
  shows "settled (and_then m f)"
proof (rule settledI)
  fix w r w' assume a: "and_then m f w = (r, w')"
  obtain r1 w1 where m: "m w = (r1, w1)" by (cases "m w")
  from stable_quiet [OF assms(1) m] obtain e1
    where e1: "trace w1 = trace w @ e1" "\<forall>t. EvMkdtemp t \<notin> set e1" by blast
  show "\<exists>evs. trace w' = trace w @ evs
          \<and> (\<forall>t. EvMkdtemp t \<in> set evs \<longrightarrow> files w' t = Some Dir)"
  proof (cases r1)
    case (Inl e)
    then have "w' = w1" using a m by (simp add: and_then_def)
    then show ?thesis using e1 by blast
  next
    case (Inr x)
    then have "f x w1 = (r, w')" using a m by (simp add: and_then_def)
    from settledD [OF assms(2) this] obtain e2
      where e2: "trace w' = trace w1 @ e2"
        "\<forall>t. EvMkdtemp t \<in> set e2 \<longrightarrow> files w' t = Some Dir" by blast
    have "trace w' = trace w @ (e1 @ e2)" using e1(1) e2(1) by simp
    moreover have "\<forall>t. EvMkdtemp t \<in> set (e1 @ e2) \<longrightarrow> files w' t = Some Dir"
      using e1(2) e2(2) by simp
    ultimately show ?thesis by blast
  qed
qed

lemma settled_then_stable:
  assumes "settled m" "\<And>x. stable (f x)"
  shows "settled (and_then m f)"
proof (rule settledI)
  fix w r w' assume a: "and_then m f w = (r, w')"
  obtain r1 w1 where m: "m w = (r1, w1)" by (cases "m w")
  from settledD [OF assms(1) m] obtain e1
    where e1: "trace w1 = trace w @ e1"
      "\<forall>t. EvMkdtemp t \<in> set e1 \<longrightarrow> files w1 t = Some Dir" by blast
  show "\<exists>evs. trace w' = trace w @ evs
          \<and> (\<forall>t. EvMkdtemp t \<in> set evs \<longrightarrow> files w' t = Some Dir)"
  proof (cases r1)
    case (Inl e)
    then have "w' = w1" using a m by (simp add: and_then_def)
    then show ?thesis using e1 by blast
  next
    case (Inr x)
    then have f: "f x w1 = (r, w')" using a m by (simp add: and_then_def)
    from stable_quiet [OF assms(2) f] obtain e2
      where e2: "trace w' = trace w1 @ e2" "\<forall>t. EvMkdtemp t \<notin> set e2" by blast
    have "trace w' = trace w @ (e1 @ e2)" using e1(1) e2(1) by simp
    moreover have "\<forall>t. EvMkdtemp t \<in> set (e1 @ e2) \<longrightarrow> files w' t = Some Dir"
      using e1(2) e2(2) stable_keeps [OF assms(2) f] by auto
    ultimately show ?thesis by blast
  qed
qed

lemma settled_build_workspace:
  assumes cwd: "isabs (getcwd ext)"
    and rn: "\<forall>n \<in> set (random_names ext). CHR ''/'' \<notin> set n"
  shows "settled (build_workspace ext ws cp vfs)"
proof (rule settledI)
  fix w r w' assume a: "build_workspace ext ws cp vfs w = (r, w')"
  let ?goal = "\<exists>evs. trace w' = trace w @ evs
          \<and> (\<forall>t. EvMkdtemp t \<in> set evs \<longrightarrow> files w' t = Some Dir)"
  let ?cwd = "getcwd ext"
  show ?goal
  proof (cases "vfs = []")
    case True
    then have "w' = w" using a by (simp add: build_workspace_def ret_def)
    then show ?thesis by simp
  next
    case False
    obtain r0 w0 where m: "merge_values_files ext cp (YMap []) vfs w = (r0, w0)"
      by (cases "merge_values_files ext cp (YMap []) vfs w")
    have w0: "w0 = w" by (rule merge_values_files_pure [OF m])
    show ?thesis
    proof (cases r0)
      case (Inl e)
      then have "w' = w" using a False m w0 by (simp add: build_workspace_def and_then_def)
      then show ?thesis by simp
    next
      case (Inr merged)
      obtain r1 w1 where t: "mkdtemp ?cwd (random_names ext) ''.dist-temporary-'' ws w = (r1, w1)"
        by (cases "mkdtemp ?cwd (random_names ext) ''.dist-temporary-'' ws w")
      show ?thesis
      proof (cases r1)
        case (Inl e)
        then have "w1 = w" using t by (simp add: mkdtemp_error)
        then have "w' = w"
          using a False m w0 Inr t Inl by (simp add: build_workspace_def and_then_def)
        then show ?thesis by simp
      next
        case (Inr tmp_root)
        from mkdtemp_result [OF t [unfolded Inr]] obtain n where n:
          "n \<in> set (random_names ext)"
          "tmp_root = abspath ?cwd (path_join ws (''.dist-temporary-'' @ n))"
          "files w (locate ?cwd ws) = Some Dir"
          "files w1 = (files w)(locate ?cwd ws @ [''.dist-temporary-'' @ n] \<mapsto> Dir)"
          "trace w1 = trace w @ [EvMkdtemp (locate ?cwd ws @ [''.dist-temporary-'' @ n])]"
          by blast
        let ?T = "locate ?cwd ws @ [''.dist-temporary-'' @ n]"
        let ?c = "basename (normpath cp)"
        let ?tc = "path_join tmp_root ?c"
        have lt: "locate ?cwd tmp_root = ?T"
          unfolding n(2) using cwd rn n(1) by (intro temporary_location) auto
        have ld: "locate ?cwd ?tc = norm_step True ?T ?c"
          using locate_join [OF cwd basename_no_sep [of "normpath cp"], of tmp_root] lt by simp
        have T1: "files w1 ?T = Some Dir" using n(4) by simp
        have P1: "files w1 (butlast ?T) = Some Dir" using n(3,4) by simp
        obtain r2 w2 where c: "copytree ?cwd cp ?tc w1 = (r2, w2)"
          by (cases "copytree ?cwd cp ?tc w1")
        have "\<not> prefix (locate ?cwd ?tc) ?T \<or> files w1 (locate ?cwd ?tc) \<noteq> None"
          using norm_step_cases [of ?T ?c] T1 P1 unfolding ld by auto
        from copytree_keeps [OF c T1 this] have T2: "files w2 ?T = Some Dir" .
        from copytree_quiet [OF c] obtain e2
          where e2: "trace w2 = trace w1 @ e2" "\<forall>t. EvMkdtemp t \<notin> set e2" by blast
        let ?rest = "and_then (dump_yaml_file ext (path_join ?tc ''values.yaml'') merged)
                       (\<lambda>_. ret ?tc)"
        have sr: "stable ?rest"
          unfolding dump_yaml_file_def by (intro stable_and_then stable_write_file stable_ret)
        have a': "and_then (copytree ?cwd cp ?tc) (\<lambda>_. ?rest) w1 = (r, w')"
          using a False m w0 \<open>r0 = Inr merged\<close> t Inr
          by (simp add: build_workspace_def and_then_def Let_def)
        have "\<exists>e3. trace w' = trace w2 @ e3 \<and> (\<forall>t. EvMkdtemp t \<notin> set e3)
                  \<and> files w' ?T = Some Dir"
        proof (cases r2)
          case (Inl e)
          then have "w' = w2" using a' c by (simp add: and_then_def)
          then show ?thesis using T2 by simp
        next
          case (Inr u)
          then have f: "?rest w2 = (r, w')" using a' c by (simp add: and_then_def)
          from stable_quiet [OF sr f] stable_keeps [OF sr f T2] show ?thesis by blast
        qed
        then obtain e3 where e3: "trace w' = trace w2 @ e3" "\<forall>t. EvMkdtemp t \<notin> set e3"
          "files w' ?T = Some Dir" by blast
        have "trace w' = trace w @ (EvMkdtemp ?T # e2 @ e3)" using n(5) e2(1) e3(1) by simp
        moreover have "\<forall>t. EvMkdtemp t \<in> set (EvMkdtemp ?T # e2 @ e3) \<longrightarrow> files w' t = Some Dir"
          using e2(2) e3(2,3) by auto
        ultimately show ?thesis by blast
      qed
    qed
  qed
qed

lemma settled_main_body:
  assumes "keeps_directories ext" "isabs (getcwd ext)"
    "\<forall>n \<in> set (random_names ext). CHR ''/'' \<notin> set n"
  shows "settled (main_body ext environ)"
proof (cases "read_inputs environ")
  case (Inl e)
  then have "main_body ext environ = raise e"
    by (rule_tac ext) (simp add: main_body_def of_result_def raise_def and_then_def)
  then show ?thesis by (auto intro!: settledI simp: raise_def)
next
  case (Inr i)
  show ?thesis
    unfolding main_body_unfold [OF Inr]
    by (intro stable_then_settled stable_prepare stable_install_helm assms(1)
          settled_then_stable settled_build_workspace assms(2,3) stable_package)
qed

text \<open>
  C4 (as the claim words it) fails: nothing in the run removes the temporary
  workspace. In the example run, which succeeds, the directory that the merge
  step created is still there at the end, and so it is in the run where the tool
  fails.
\<close>

theorem temporary_workspace_survives_counterexample:
  "files example_world [''ws'', ''.dist-temporary-abcd1234''] = None
   \<and> fst (main (example_tools True) example_environ example_world) = 0
   \<and> EvMkdtemp [''ws'', ''.dist-temporary-abcd1234'']
       \<in> set (trace (snd (main (example_tools True) example_environ example_world)))
   \<and> files (snd (main (example_tools True) example_environ example_world))
       [''ws'', ''.dist-temporary-abcd1234''] = Some Dir
   \<and> fst (main (example_tools False) example_environ example_world) = 1
   \<and> EvMkdtemp [''ws'', ''.dist-temporary-abcd1234'']
       \<in> set (trace (snd (main (example_tools False) example_environ example_world)))
   \<and> files (snd (main (example_tools False) example_environ example_world))
       [''ws'', ''.dist-temporary-abcd1234''] = Some Dir"
  by code_simp

text \<open>
  C4 (as the code has it). When the external tools remove no directory, every
  temporary workspace that a run has created is still a directory when the run
  ends, whether the status is 0 or 1.
\<close>

theorem temporary_workspace_survives:
  assumes "keeps_directories ext" "isabs (getcwd ext)"
    "\<forall>n \<in> set (random_names ext). CHR ''/'' \<notin> set n"
    "main ext environ w = (code, w')"
  shows "\<exists>evs. trace w' = trace w @ evs
           \<and> (\<forall>t. EvMkdtemp t \<in> set evs \<longrightarrow> files w' t = Some Dir)"
proof -
  obtain r where "main_body ext environ w = (r, w')"
    using assms(4) by (cases "main_body ext environ w") (auto simp: main_def split: sum.splits)
  with settled_main_body [OF assms(1-3)] show ?thesis by (rule settledD)
qed

lemma example_tools_keep_directories: "keeps_directories (example_tools ok)"
  by (auto simp: keeps_directories_def example_tools_def)

lemma example_workspace_created:
  "EvMkdtemp [''ws'', ''.dist-temporary-abcd1234'']
     \<in> set (trace (snd (main (example_tools False) example_environ example_world)))"
  by code_simp

theorem temporary_workspace_survives_witness:
  "keeps_directories (example_tools False)
   \<and> getcwd (example_tools False) = ''/''
   \<and> random_names (example_tools False) = [''abcd1234'']
   \<and> files (snd (main (example_tools False) example_environ example_world))
       [''ws'', ''.dist-temporary-abcd1234''] = Some Dir"
proof -
  let ?r = "main (example_tools False) example_environ example_world"
  have k: "keeps_directories (example_tools False)" by (rule example_tools_keep_directories)
  have c: "getcwd (example_tools False) = ''/''" by (simp add: example_tools_def)
  have n: "random_names (example_tools False) = [''abcd1234'']" by (simp add: example_tools_def)
  have a: "isabs (getcwd (example_tools False))" unfolding c by code_simp
  have s: "\<forall>n \<in> set (random_names (example_tools False)). CHR ''/'' \<notin> set n"
    unfolding n by simp
  have pr: "?r = (fst ?r, snd ?r)" by simp
  from temporary_workspace_survives [OF k a s pr] obtain evs
    where e: "trace (snd ?r) = trace example_world @ evs"
      "\<forall>t. EvMkdtemp t \<in> set evs \<longrightarrow> files (snd ?r) t = Some Dir" by blast
  have "evs = trace (snd ?r)" using e(1) by (simp add: example_world_def)
  then have "EvMkdtemp [''ws'', ''.dist-temporary-abcd1234''] \<in> set evs"
    using example_workspace_created by simp
  then have d: "files (snd ?r) [''ws'', ''.dist-temporary-abcd1234''] = Some Dir"
    using e(2) by blast
  show ?thesis by (intro conjI k c n d)
qed

section \<open>The original chart directory\<close>










end
